theory Spec2Isabelle
  imports Main "HOL-Library.Char_ord"
begin

section \<open>Characters\<close>

text \<open>
  Texts are Python \<open>str\<close> values over the ASCII range. The character tests below are the
  ones Python's \<open>re\<close> module and \<open>str.strip\<close> apply to code points below 128:
  \<open>\w\<close> is a letter, a digit or the underscore, and white space is what
  \<open>str.isspace\<close> accepts (tab, line feed, vertical tab, form feed, carriage return,
  the four separators 28 to 31, and the blank).
\<close>

definition is_upper :: "char \<Rightarrow> bool" where
  "is_upper c = (CHR ''A'' \<le> c \<and> c \<le> CHR ''Z'')"

definition is_lower :: "char \<Rightarrow> bool" where
  "is_lower c = (CHR ''a'' \<le> c \<and> c \<le> CHR ''z'')"

definition is_digit :: "char \<Rightarrow> bool" where
  "is_digit c = (CHR ''0'' \<le> c \<and> c \<le> CHR ''9'')"

definition is_word :: "char \<Rightarrow> bool" where
  "is_word c = (is_upper c \<or> is_lower c \<or> is_digit c \<or> c = CHR ''_'')"

definition is_space :: "char \<Rightarrow> bool" where
  "is_space c = ((9::nat) \<le> of_char c \<and> of_char c \<le> (13::nat)
                 \<or> (28::nat) \<le> of_char c \<and> of_char c \<le> (32::nat))"

definition lower :: "char \<Rightarrow> char" where
  "lower c = (if is_upper c then char_of (of_char c + (32::nat)) else c)"

section \<open>The pattern matcher the package relies on\<close>

text \<open>
  The package hands its marker fragments to Python's \<open>re\<close> module. A fragment is
  modelled by its parsed form: literal characters, the classes \<open>\w\<close>, \<open>\d\<close>,
  \<open>\s\<close> and their complements, the anchor \<open>\b\<close>, concatenation, alternation and
  the greedy star. Groups only record sub-matches and are left out, \<open>r+\<close> is
  \<open>Seq r (Star r)\<close> and \<open>r?\<close> is \<open>Alt r Eps\<close>. A fragment that \<open>re.compile\<close>
  rejects has no parsed form and is not an input of the model. Of the flags only
  \<open>re.IGNORECASE\<close> changes what this fragment language matches.
\<close>

datatype reflags = NOFLAG | IGNORECASE

datatype cclass = Word | Digit | Space

datatype regex =
    Eps \<comment> \<open>the empty fragment\<close>
  | Lit char \<comment> \<open>one literal character\<close>
  | Cls bool cclass \<comment> \<open>\<open>Cls True Word\<close> is \<open>\w\<close>, \<open>Cls False Word\<close> is \<open>\W\<close>, and so on\<close>
  | Bnd \<comment> \<open>\<open>\b\<close>\<close>
  | Seq regex regex
  | Alt regex regex \<comment> \<open>\<open>a|b\<close>\<close>
  | Star regex \<comment> \<open>\<open>a*\<close>\<close>

fun in_class :: "cclass \<Rightarrow> char \<Rightarrow> bool" where
  "in_class Word c = is_word c"
| "in_class Digit c = is_digit c"
| "in_class Space c = is_space c"

fun char_eq :: "reflags \<Rightarrow> char \<Rightarrow> char \<Rightarrow> bool" where
  "char_eq NOFLAG c d = (c = d)"
| "char_eq IGNORECASE c d = (lower c = lower d)"

definition at_boundary :: "string \<Rightarrow> nat \<Rightarrow> bool" where
  \<comment> \<open>\<open>\b\<close>: exactly one of the characters before and after offset \<open>i\<close> is a word
      character; outside the text there is none.\<close>
  "at_boundary s i =
     ((0 < i \<and> i \<le> length s \<and> is_word (s ! (i - 1))) \<noteq> (i < length s \<and> is_word (s ! i)))"

primrec star_ends :: "(nat \<Rightarrow> nat list) \<Rightarrow> nat \<Rightarrow> nat \<Rightarrow> nat list" where
  "star_ends f 0 i = [i]"
| "star_ends f (Suc n) i =
     concat (map (\<lambda>e. if i < e then star_ends f n e else [i]) (f i)) @ [i]"

text \<open>
  \<open>ends fl r s i\<close> lists the offsets at which a match of \<open>r\<close> that starts at offset
  \<open>i\<close> of \<open>s\<close> can end, in the order in which the backtracking matcher tries them:
  the left alternative before the right one, one more round of a star before stopping.
  A round of a star that consumes nothing ends the star there, as in Python's matcher:
  the offset \<open>i\<close> itself is the next candidate. Every other round consumes a
  character, so the text remaining after \<open>i\<close> bounds the number of rounds
  (\<open>ends_Star_unfold\<close> below is the star's equation without that bound).
\<close>

fun ends :: "reflags \<Rightarrow> regex \<Rightarrow> string \<Rightarrow> nat \<Rightarrow> nat list" where
  "ends fl Eps s i = [i]"
| "ends fl (Lit c) s i = (if i < length s \<and> char_eq fl c (s ! i) then [Suc i] else [])"
| "ends fl (Cls pos cc) s i =
     (if i < length s \<and> (in_class cc (s ! i) = pos) then [Suc i] else [])"
| "ends fl Bnd s i = (if at_boundary s i then [i] else [])"
| "ends fl (Seq a b) s i = concat (map (ends fl b s) (ends fl a s i))"
| "ends fl (Alt a b) s i = ends fl a s i @ ends fl b s i"
| "ends fl (Star a) s i = star_ends (ends fl a s) (Suc (length s - i)) i"

type_synonym pattern = "regex \<times> reflags"

text \<open>
  One attempt of the matcher at every offset of a list of candidate offsets, leftmost
  first. \<open>adv\<close> is the engine's \<open>must_advance\<close>: at the first candidate only, an empty
  match is refused (the scanner sets it after an empty match).
\<close>

fun scan :: "pattern \<Rightarrow> string \<Rightarrow> bool \<Rightarrow> nat list \<Rightarrow> (nat \<times> nat) option" where
  "scan p s adv [] = None"
| "scan p s adv (i # cands) =
     (case find (\<lambda>e. \<not> adv \<or> e \<noteq> i) (ends (snd p) (fst p) s i) of
        Some e \<Rightarrow> Some (i, e)
      | None \<Rightarrow> scan p s False cands)"

definition re_search :: "pattern \<Rightarrow> string \<Rightarrow> (nat \<times> nat) option" where
  \<comment> \<open>\<open>Pattern.search(text)\<close>: the span of the leftmost match, \<open>None\<close> when there is none.\<close>
  "re_search p s = scan p s False [0..<Suc (length s)]"

lemma star_ends_ge:
  assumes "\<And>j e. e \<in> set (f j) \<Longrightarrow> j \<le> e"
  shows "e \<in> set (star_ends f n i) \<Longrightarrow> i \<le> e"
proof (induction n arbitrary: i)
  case 0
  then show ?case by simp
next
  case (Suc n)
  from Suc.prems consider "e = i"
    | x where "x \<in> set (f i)" "i < x" "e \<in> set (star_ends f n x)"
    by (auto split: if_splits)
  then show ?case
  proof cases
    case 1
    then show ?thesis by simp
  next
    case 2
    from Suc.IH [OF 2(3)] 2(2) show ?thesis by simp
  qed
qed

lemma ends_ge: "e \<in> set (ends fl r s i) \<Longrightarrow> i \<le> e"
proof (induction r arbitrary: i e)
  case (Seq a b)
  then obtain m where "m \<in> set (ends fl a s i)" "e \<in> set (ends fl b s m)"
    by auto
  with Seq.IH show ?case by (meson le_trans)
next
  case (Star a)
  from Star.prems have mem: "e \<in> set (star_ends (ends fl a s) (Suc (length s - i)) i)"
    by (simp only: ends.simps)
  show ?case
  proof (rule star_ends_ge [where f = "ends fl a s"])
    show "\<And>j e. e \<in> set (ends fl a s j) \<Longrightarrow> j \<le> e" by (rule Star.IH)
    show "e \<in> set (star_ends (ends fl a s) (Suc (length s - i)) i)" by (rule mem)
  qed
qed (auto split: if_splits)

lemma star_ends_le:
  assumes "\<And>j e. j \<le> m \<Longrightarrow> e \<in> set (f j) \<Longrightarrow> e \<le> m"
  shows "i \<le> m \<Longrightarrow> e \<in> set (star_ends f n i) \<Longrightarrow> e \<le> m"
proof (induction n arbitrary: i)
  case 0
  then show ?case by simp
next
  case (Suc n)
  from Suc.prems(2) consider "e = i"
    | x where "x \<in> set (f i)" "i < x" "e \<in> set (star_ends f n x)"
    by (auto split: if_splits)
  then show ?case
  proof cases
    case 1
    with Suc.prems(1) show ?thesis by simp
  next
    case 2
    from assms [OF Suc.prems(1) 2(1)] have "x \<le> m" .
    from Suc.IH [OF this 2(3)] show ?thesis .
  qed
qed

lemma ends_le: "i \<le> length s \<Longrightarrow> e \<in> set (ends fl r s i) \<Longrightarrow> e \<le> length s"
proof (induction r arbitrary: i e)
  case (Seq a b)
  from Seq.prems(2) obtain m where m: "m \<in> set (ends fl a s i)" "e \<in> set (ends fl b s m)"
    by auto
  from Seq.IH(1) [OF Seq.prems(1) m(1)] have "m \<le> length s" .
  from Seq.IH(2) [OF this m(2)] show ?case .
next
  case (Star a)
  from Star.prems(2) have mem: "e \<in> set (star_ends (ends fl a s) (Suc (length s - i)) i)"
    by (simp only: ends.simps)
  show ?case
  proof (rule star_ends_le [where m = "length s" and f = "ends fl a s"])
    show "\<And>j e. j \<le> length s \<Longrightarrow> e \<in> set (ends fl a s j) \<Longrightarrow> e \<le> length s"
      by (rule Star.IH)
    show "i \<le> length s" by (rule Star.prems(1))
    show "e \<in> set (star_ends (ends fl a s) (Suc (length s - i)) i)" by (rule mem)
  qed
next
  case (Alt a b)
  from Alt.prems(2) have "e \<in> set (ends fl a s i) \<or> e \<in> set (ends fl b s i)" by simp
  with Alt.IH [OF Alt.prems(1)] show ?case by blast
qed (simp_all split: if_splits)

lemma find_SomeD: "find P xs = Some x \<Longrightarrow> x \<in> set xs \<and> P x"
  by (induction xs) (simp_all split: if_splits)

lemma scan_Some:
  "distinct cands \<Longrightarrow> scan p s adv cands = Some (i, e) \<Longrightarrow>
     i \<in> set cands \<and> e \<in> set (ends (snd p) (fst p) s i) \<and> (adv \<and> i = hd cands \<longrightarrow> e \<noteq> i)"
proof (induction cands arbitrary: adv)
  case Nil
  then show ?case by simp
next
  case (Cons c cands)
  show ?case
  proof (cases "find (\<lambda>e. \<not> adv \<or> e \<noteq> c) (ends (snd p) (fst p) s c)")
    case None
    with Cons.prems(2) have sc: "scan p s False cands = Some (i, e)" by simp
    from Cons.prems(1) have d: "distinct cands" and c: "c \<notin> set cands" by simp_all
    from Cons.IH [OF d sc] have "i \<in> set cands" "e \<in> set (ends (snd p) (fst p) s i)"
      by blast+
    with c show ?thesis by auto
  next
    case (Some x)
    with Cons.prems(2) have ie: "i = c" "e = x" by simp_all
    from find_SomeD [OF Some] ie show ?thesis by simp
  qed
qed

lemma scan_upt_Some:
  assumes "scan p s adv [pos..<Suc (length s)] = Some (i, e)"
  shows "pos \<le> i" and "i \<le> e" and "e \<le> length s" and "adv \<and> i = pos \<longrightarrow> e \<noteq> i"
proof -
  have d: "distinct [pos..<Suc (length s)]" by simp
  note f = scan_Some [OF d assms]
  from f have "i \<in> set [pos..<Suc (length s)]" by blast
  then have i: "pos \<le> i" "i \<le> length s" by (simp_all only: set_upt atLeastLessThan_iff less_Suc_eq_le)
  from f have e: "e \<in> set (ends (snd p) (fst p) s i)" by blast
  from i have "[pos..<Suc (length s)] = pos # [Suc pos..<Suc (length s)]"
    by (intro upt_conv_Cons) simp
  then have "hd [pos..<Suc (length s)] = pos" by (simp only: list.sel)
  with f have a: "adv \<and> i = pos \<longrightarrow> e \<noteq> i" by metis
  show "pos \<le> i" by (rule i(1))
  show "i \<le> e" using e by (rule ends_ge)
  show "e \<le> length s" using i(2) e by (rule ends_le)
  show "adv \<and> i = pos \<longrightarrow> e \<noteq> i" by (rule a)
qed

text \<open>
  \<open>Pattern.finditer(text)\<close>: the matches from left to right, each search resuming
  where the previous match ended; after an empty match the next one may not be empty at
  the same offset.
\<close>

function finditer_from :: "pattern \<Rightarrow> string \<Rightarrow> nat \<Rightarrow> bool \<Rightarrow> (nat \<times> nat) list" where
  "finditer_from p s pos adv =
     (case scan p s adv [pos..<Suc (length s)] of
        None \<Rightarrow> []
      | Some (i, e) \<Rightarrow> (i, e) # finditer_from p s e (e = i))"
  by pat_completeness auto

termination
proof (relation "measure (\<lambda>(p, s, pos, adv). 2 * (Suc (length s) - pos) - (if adv then 1 else 0))",
    goal_cases)
  case 1
  show ?case by simp
next
  case (2 p s pos adv x i e)
  then have sc: "scan p s adv [pos..<Suc (length s)] = Some (i, e)" by simp
  note f = scan_upt_Some [OF sc]
  show ?case
  proof (cases "e = i")
    case True
    with f have "pos < i \<or> \<not> adv" "i \<le> length s" by auto
    with True f(1) show ?thesis by auto
  next
    case False
    with f have "pos < e" "e \<le> length s" by auto
    with False show ?thesis by auto
  qed
qed

definition re_finditer :: "pattern \<Rightarrow> string \<Rightarrow> (nat \<times> nat) list" where
  "re_finditer p s = finditer_from p s 0 False"

definition re_findall :: "regex \<Rightarrow> string \<Rightarrow> reflags \<Rightarrow> string list" where
  \<comment> \<open>\<open>re.findall(key, text, flags)\<close>: one entry per match of the bare fragment (the
      matched piece of text; the caller only counts them).\<close>
  "re_findall key text flags =
     map (\<lambda>(i, e). take (e - i) (drop i text)) (re_finditer (key, flags) text)"

section \<open>Python strings\<close>

definition clamp_index :: "int \<Rightarrow> nat \<Rightarrow> nat" where
  \<comment> \<open>a slice bound: negative bounds count from the end, and every bound is clipped to
      the string.\<close>
  "clamp_index i n = (if i < 0 then nat (i + int n) else min (nat i) n)"

definition py_slice :: "string \<Rightarrow> int \<Rightarrow> int \<Rightarrow> string" where
  \<comment> \<open>\<open>text[a:b]\<close>\<close>
  "py_slice text a b =
     (let lo = clamp_index a (length text); hi = clamp_index b (length text)
      in take (hi - lo) (drop lo text))"

definition py_slice_from :: "string \<Rightarrow> int \<Rightarrow> string" where
  \<comment> \<open>\<open>text[a:]\<close>\<close>
  "py_slice_from text a = drop (clamp_index a (length text)) text"

definition strip :: "string \<Rightarrow> string" where
  \<comment> \<open>\<open>str.strip()\<close>\<close>
  "strip s = rev (dropWhile is_space (rev (dropWhile is_space s)))"

section \<open>Pattern compilation\<close>

datatype error =
    EmptyKeys \<comment> \<open>\<open>ValueError("keys must have at least one element")\<close>\<close>
  | InvalidStrategy string \<comment> \<open>\<open>ValueError("Invalid value: ...")\<close>\<close>

fun join_keys :: "regex list \<Rightarrow> regex" where
  \<comment> \<open>\<open>'|'.join(keys)\<close>\<close>
  "join_keys [] = Eps"
| "join_keys [key] = key"
| "join_keys (key # keys) = Alt key (join_keys keys)"

definition pattern_keys :: "regex list \<Rightarrow> bool \<Rightarrow> reflags \<Rightarrow> error + pattern" where
  "pattern_keys keys word_boundary flags =
     (if length keys = 0 then Inl EmptyKeys
      else if word_boundary then Inr (Seq Bnd (Seq (join_keys keys) Bnd), flags)
      else Inr (join_keys keys, flags))"

section \<open>Start and end positions\<close>

text \<open>
  \<open>logging.warning\<close> writes to the process-wide log. The model returns what a call
  writes, in order, next to its outcome: one entry (fragment, count) per warning.
\<close>

type_synonym diagnostic = "regex \<times> nat"

fun warn_repeated :: "string \<Rightarrow> regex list \<Rightarrow> reflags \<Rightarrow> diagnostic list" where
  \<comment> \<open>the loop \<open>for key in keys\<close> of \<open>_find_start_position\<close>\<close>
  "warn_repeated text [] flags = []"
| "warn_repeated text (key # keys) flags =
     (let x = re_findall key text flags; count = length x
      in (if count \<ge> 2 then [(key, count)] else []) @ warn_repeated text keys flags)"

definition find_start_position ::
  "string \<Rightarrow> regex list option \<Rightarrow> bool \<Rightarrow> reflags \<Rightarrow> diagnostic list \<times> (error + int \<times> int)" where
  "find_start_position text keys word_boundary flags =
     (case keys of
        None \<Rightarrow> ([], Inr (0, 0))
      | Some ks \<Rightarrow>
          (let log = warn_repeated text ks flags
           in case pattern_keys ks word_boundary flags of
                Inl err \<Rightarrow> (log, Inl err)
              | Inr pattern \<Rightarrow>
                  (case re_search pattern text of
                     None \<Rightarrow> (log, Inr (- 1, - 1))
                   | Some (s, e) \<Rightarrow> (log, Inr (int s, int e)))))"

definition find_start_position_all ::
  "string \<Rightarrow> regex list option \<Rightarrow> bool \<Rightarrow> reflags \<Rightarrow> error + (int \<times> int) list" where
  "find_start_position_all text keys word_boundary flags =
     (case keys of
        None \<Rightarrow> Inr [(0, 0)]
      | Some ks \<Rightarrow>
          (case pattern_keys ks word_boundary flags of
             Inl err \<Rightarrow> Inl err
           | Inr pattern \<Rightarrow>
               (let matches = re_finditer pattern text
                in if matches = [] then Inr []
                   else Inr (map (\<lambda>(s, e). (int s, int e)) matches))))"

definition find_end_position_greedy ::
  "string \<Rightarrow> regex list option \<Rightarrow> int \<Rightarrow> bool \<Rightarrow> reflags \<Rightarrow> error + int" where
  "find_end_position_greedy text keys start_pos word_boundary flags =
     (case keys of
        None \<Rightarrow> Inr (int (length text))
      | Some ks \<Rightarrow>
          (case pattern_keys ks word_boundary flags of
             Inl err \<Rightarrow> Inl err
           | Inr pattern \<Rightarrow>
               (case re_search pattern (py_slice_from text start_pos) of
                  None \<Rightarrow> Inr (int (length text))
                | Some (s, e) \<Rightarrow> Inr (start_pos + int s))))"

fun try_keys :: "string \<Rightarrow> string \<Rightarrow> regex list \<Rightarrow> int \<Rightarrow> bool \<Rightarrow> reflags \<Rightarrow> error + int" where
  \<comment> \<open>the loop \<open>for key in keys\<close> of \<open>_find_end_position_sequential\<close>\<close>
  "try_keys text search_text [] start_pos word_boundary flags = Inr (int (length text))"
| "try_keys text search_text (key # keys) start_pos word_boundary flags =
     (case pattern_keys [key] word_boundary flags of
        Inl err \<Rightarrow> Inl err
      | Inr pattern \<Rightarrow>
          (case re_search pattern search_text of
             Some (s, e) \<Rightarrow> Inr (start_pos + int s)
           | None \<Rightarrow> try_keys text search_text keys start_pos word_boundary flags))"

definition find_end_position_sequential ::
  "string \<Rightarrow> regex list option \<Rightarrow> int \<Rightarrow> bool \<Rightarrow> reflags \<Rightarrow> error + int" where
  "find_end_position_sequential text keys start_pos word_boundary flags =
     (case keys of
        None \<Rightarrow> Inr (int (length text))
      | Some ks \<Rightarrow>
          (let search_text = py_slice_from text start_pos
           in try_keys text search_text ks start_pos word_boundary flags))"

section \<open>The section extractor\<close>

record section_extractor =
  start_keys :: "regex list option"
  end_keys :: "regex list option"
  include_start_keys :: bool
  word_boundary :: bool
  flags :: reflags
  match_strategy :: string

definition SectionExtractor ::
  "regex list option \<Rightarrow> regex list option \<Rightarrow> bool \<Rightarrow> bool \<Rightarrow> reflags \<Rightarrow> string
     \<Rightarrow> error + section_extractor" where
  \<comment> \<open>\<open>SectionExtractor.__init__\<close>\<close>
  "SectionExtractor sk ek isk wb fl strategy =
     (if strategy \<notin> {''greedy'', ''sequential''} then Inl (InvalidStrategy strategy)
      else Inr \<lparr>start_keys = sk, end_keys = ek, include_start_keys = isk,
                word_boundary = wb, flags = fl, match_strategy = strategy\<rparr>)"

text \<open>
  \<open>extract\<close> calls the position finders without their \<open>word_boundary\<close> and
  \<open>flags\<close> arguments, so they run with their defaults \<open>True\<close> and
  \<open>re.IGNORECASE\<close>; \<open>extract_all\<close> passes the extractor's own.
\<close>

definition "extract" :: "section_extractor \<Rightarrow> string \<Rightarrow> diagnostic list \<times> (error + string)" where
  "extract self text =
     (case find_start_position text (start_keys self) True IGNORECASE of
        (log, Inl err) \<Rightarrow> (log, Inl err)
      | (log, Inr (start_idx_start, start_idx_end)) \<Rightarrow>
          if start_idx_start = - 1 then (log, Inr [])
          else
            (case (if match_strategy self = ''greedy''
                   then find_end_position_greedy text (end_keys self) start_idx_start True IGNORECASE
                   else find_end_position_sequential text (end_keys self) start_idx_start True IGNORECASE) of
               Inl err \<Rightarrow> (log, Inl err)
             | Inr end_idx \<Rightarrow>
                 (let section_start = (if include_start_keys self then start_idx_start else start_idx_end)
                  in (log, Inr (strip (py_slice text section_start end_idx))))))"

fun collect_sections ::
  "section_extractor \<Rightarrow> string \<Rightarrow> (int \<times> int) list \<Rightarrow> string list \<Rightarrow> error + string list" where
  \<comment> \<open>the loop over \<open>start_positions\<close> of \<open>extract_all\<close>, with the list \<open>sections\<close>
      built so far\<close>
  "collect_sections self text [] sections = Inr sections"
| "collect_sections self text ((start_idx_start, start_idx_end) # rest) sections =
     (case (if match_strategy self = ''greedy''
            then find_end_position_greedy text (end_keys self) start_idx_start
                   (word_boundary self) (flags self)
            else find_end_position_sequential text (end_keys self) start_idx_start
                   (word_boundary self) (flags self)) of
        Inl err \<Rightarrow> Inl err
      | Inr end_idx \<Rightarrow>
          (let section_start = (if include_start_keys self then start_idx_start else start_idx_end);
               section = strip (py_slice text section_start end_idx)
           in if section \<noteq> [] then collect_sections self text rest (sections @ [section])
              else collect_sections self text rest sections))"

definition extract_all :: "section_extractor \<Rightarrow> string \<Rightarrow> error + string list" where
  "extract_all self text =
     (case find_start_position_all text (start_keys self) (word_boundary self) (flags self) of
        Inl err \<Rightarrow> Inl err
      | Inr start_positions \<Rightarrow>
          if start_positions = [] then Inr []
          else collect_sections self text start_positions [])"

fun lit :: "string \<Rightarrow> regex" where
  \<comment> \<open>the fragment written as plain text, without any special character\<close>
  "lit [] = Eps"
| "lit [c] = Lit c"
| "lit (c # cs) = Seq (Lit c) (lit cs)"

section \<open>Where a marker matches\<close>

text \<open>
  A marker \<open>key\<close> matches at offset \<open>i\<close> of \<open>s\<close> when a match of the fragment starts
  there; with \<open>wb\<close> the match has to begin and end on a word boundary, as the pattern
  that \<open>pattern_keys\<close> compiles for the single fragment demands.
\<close>

definition key_matches_at :: "bool \<Rightarrow> reflags \<Rightarrow> regex \<Rightarrow> string \<Rightarrow> nat \<Rightarrow> bool" where
  "key_matches_at wb fl key s i =
     (i \<le> length s \<and> ends fl (if wb then Seq Bnd (Seq key Bnd) else key) s i \<noteq> [])"

text \<open>
  The end offset that \<open>extract\<close> and \<open>extract_all\<close> resolve for a section starting
  at \<open>start_pos\<close>: the finder named by the extractor's strategy, applied to the
  extractor's end markers.
\<close>

definition end_position :: "section_extractor \<Rightarrow> string \<Rightarrow> int \<Rightarrow> bool \<Rightarrow> reflags \<Rightarrow> error + int" where
  "end_position self text start_pos wb fl =
     (if match_strategy self = ''greedy''
      then find_end_position_greedy text (end_keys self) start_pos wb fl
      else find_end_position_sequential text (end_keys self) start_pos wb fl)"

text \<open>
  The body of the loop of \<open>extract_all\<close> for one start span: what the loop computes
  for the span before it decides whether to keep it.
\<close>

definition candidate_section :: "section_extractor \<Rightarrow> string \<Rightarrow> int \<times> int \<Rightarrow> error + string" where
  "candidate_section self text span =
     (case (if match_strategy self = ''greedy''
            then find_end_position_greedy text (end_keys self) (fst span)
                   (word_boundary self) (flags self)
            else find_end_position_sequential text (end_keys self) (fst span)
                   (word_boundary self) (flags self)) of
        Inl err \<Rightarrow> Inl err
      | Inr end_idx \<Rightarrow>
          Inr (strip (py_slice text (if include_start_keys self then fst span else snd span) end_idx)))"

text \<open>
  Taking a marker's text \<open>m\<close> off the front of a string that begins with it; a
  string that does not begin with it is left as it is (as \<open>str.removeprefix\<close> does).
\<close>

definition remove_marker :: "string \<Rightarrow> string \<Rightarrow> string" where
  "remove_marker m t = (if take (length m) t = m then drop (length m) t else t)"

section \<open>The sections as the specification words them\<close>

text \<open>
  The definitions of this section follow the wording of the specification, not the
  code: they say where a section ends by the offsets at which the end markers match,
  with no search procedure. \<open>earliest_match\<close> is the least offset of \<open>s\<close> at which
  any marker of the list matches (the greedy strategy); \<open>first_listed_match\<close> takes
  the first marker of the list that matches at some offset of \<open>s\<close>, and the least
  offset at which that marker matches (the sequential strategy).
\<close>

definition earliest_match :: "bool \<Rightarrow> reflags \<Rightarrow> regex list \<Rightarrow> string \<Rightarrow> nat option" where
  "earliest_match wb fl ks s =
     find (\<lambda>i. \<exists>k\<in>set ks. key_matches_at wb fl k s i) [0..<Suc (length s)]"

definition first_listed_match :: "bool \<Rightarrow> reflags \<Rightarrow> regex list \<Rightarrow> string \<Rightarrow> nat option" where
  "first_listed_match wb fl ks s =
     (case find (\<lambda>k. \<exists>i\<in>set [0..<Suc (length s)]. key_matches_at wb fl k s i) ks of
        None \<Rightarrow> None
      | Some k \<Rightarrow> find (\<lambda>i. key_matches_at wb fl k s i) [0..<Suc (length s)])"

text \<open>
  The end of the section that starts at offset \<open>start\<close>: the end markers are matched
  in the remainder of the text from \<open>start\<close> on, by the extractor's strategy and
  options; the section runs to the end of the text when the list is null or nothing
  matches. The section expected for a start span is the text from the start of the span
  (from its end, when the marker is left out) to that end, trimmed.
\<close>

definition section_end :: "section_extractor \<Rightarrow> string \<Rightarrow> int \<Rightarrow> int" where
  "section_end self text start =
     (case end_keys self of
        None \<Rightarrow> int (length text)
      | Some ks \<Rightarrow>
          (case (if match_strategy self = ''greedy''
                 then earliest_match (word_boundary self) (flags self) ks (drop (nat start) text)
                 else first_listed_match (word_boundary self) (flags self) ks (drop (nat start) text)) of
             None \<Rightarrow> int (length text)
           | Some i \<Rightarrow> start + int i))"

definition expected_section :: "section_extractor \<Rightarrow> string \<Rightarrow> int \<times> int \<Rightarrow> string" where
  "expected_section self text span =
     strip (py_slice text (if include_start_keys self then fst span else snd span)
              (section_end self text (fst span)))"

text \<open>
  A start is found in a text when the list of start markers is null (the section then
  starts with the text) or some marker of the list matches at some offset.
\<close>

definition start_found :: "bool \<Rightarrow> reflags \<Rightarrow> regex list option \<Rightarrow> string \<Rightarrow> bool" where
  "start_found wb fl keys s =
     (case keys of
        None \<Rightarrow> True
      | Some ks \<Rightarrow> \<exists>i\<in>set [0..<Suc (length s)]. \<exists>k\<in>set ks. key_matches_at wb fl k s i)"

text \<open>
  A fragment without \<open>\b\<close> matches the same way wherever the text around it begins.
\<close>

fun bnd_free :: "regex \<Rightarrow> bool" where
  "bnd_free Bnd = False"
| "bnd_free (Seq a b) = (bnd_free a \<and> bnd_free b)"
| "bnd_free (Alt a b) = (bnd_free a \<and> bnd_free b)"
| "bnd_free (Star a) = bnd_free a"
| "bnd_free r = True"

section \<open>Example reports\<close>

definition crafted_report :: string where
  "crafted_report = ''HISTORY: a\<newline>IMPRESSION: b\<newline>FINDINGS: c''"

definition crafted_extractor :: "string \<Rightarrow> section_extractor" where
  "crafted_extractor strategy =
     \<lparr>start_keys = Some [lit ''HISTORY''], end_keys = Some [lit ''FINDINGS'', lit ''IMPRESSION''],
      include_start_keys = True, word_boundary = False, flags = IGNORECASE,
      match_strategy = strategy\<rparr>"

definition guide_report :: string where
  "guide_report = ''\<newline>FINDING Normal\<newline>IMPRESSION Abnormal\<newline>''"

definition out_of_order_report :: string where
  "out_of_order_report = ''Findings: clear. Impression: normal. Technique: CT''"

definition chat_text :: string where
  "chat_text = ''Human: Hi\<newline>AI: Hello\<newline>Human: Bye\<newline>AI: See ya''"

definition chat_extractor :: section_extractor where
  "chat_extractor =
     \<lparr>start_keys = Some [lit ''Human''], end_keys = Some [lit ''AI''],
      include_start_keys = False, word_boundary = False, flags = IGNORECASE,
      match_strategy = ''greedy''\<rparr>"

definition title_report :: string where
  "title_report = ''\<newline>CT CHEST\<newline>\<newline>History: cough\<newline>''"

definition open_extractor :: "regex list option \<Rightarrow> regex list option \<Rightarrow> section_extractor" where
  "open_extractor sk ek =
     \<lparr>start_keys = sk, end_keys = ek, include_start_keys = True, word_boundary = False,
      flags = IGNORECASE, match_strategy = ''greedy''\<rparr>"

definition no_keys_extractor :: section_extractor where
  "no_keys_extractor =
     \<lparr>start_keys = Some [], end_keys = None, include_start_keys = True,
      word_boundary = False, flags = IGNORECASE, match_strategy = ''greedy''\<rparr>"

definition embedded_history :: string where
  "embedded_history = ''PastHistory: none. FamilyHistory: none. History: cough''"

definition clinical_extractor :: "bool \<Rightarrow> section_extractor" where
  "clinical_extractor incl =
     \<lparr>start_keys = Some [lit ''clinical history''], end_keys = Some [lit ''history''],
      include_start_keys = incl, word_boundary = False, flags = IGNORECASE,
      match_strategy = ''greedy''\<rparr>"

definition padded_extractor :: "bool \<Rightarrow> section_extractor" where
  \<comment> \<open>the start marker \<open>\W*history\W*\<close>\<close>
  "padded_extractor incl =
     \<lparr>start_keys = Some [Seq (Star (Cls False Word)) (Seq (lit ''history'') (Star (Cls False Word)))],
      end_keys = Some [lit ''impression''],
      include_start_keys = incl, word_boundary = False, flags = IGNORECASE,
      match_strategy = ''greedy''\<rparr>"

definition nested_text :: string where
  "nested_text = ''Q: A: one Q: two Q: three A: four''"

definition nested_extractor :: "string \<Rightarrow> section_extractor" where
  "nested_extractor strategy =
     \<lparr>start_keys = Some [lit ''Q:''], end_keys = Some [lit ''Z:'', lit ''A:''],
      include_start_keys = False, word_boundary = False, flags = IGNORECASE,
      match_strategy = strategy\<rparr>"

definition padded_report :: string where
  "padded_report = ''EXAM\<newline>\<newline>History: pain''"

definition history_extractor :: "bool \<Rightarrow> section_extractor" where
  "history_extractor wb =
     \<lparr>start_keys = Some [lit ''history''], end_keys = None, include_start_keys = True,
      word_boundary = wb, flags = IGNORECASE, match_strategy = ''greedy''\<rparr>"


section \<open>Facts about the matcher\<close>

lemma find_True: "find (\<lambda>e. True) xs = (case xs of [] \<Rightarrow> None | x # _ \<Rightarrow> Some x)"
  by (cases xs) simp_all

lemma scan_None_iff:
  "scan p s False cands = None \<longleftrightarrow> (\<forall>i\<in>set cands. ends (snd p) (fst p) s i = [])"
  by (induction cands) (simp_all add: find_True split: list.splits)

lemma scan_first:
  assumes "\<forall>j\<in>set pre. ends (snd p) (fst p) s j = []" and "ends (snd p) (fst p) s i \<noteq> []"
  shows "scan p s False (pre @ i # post) = Some (i, hd (ends (snd p) (fst p) s i))"
  using assms by (induction pre) (simp_all add: find_True split: list.splits)

lemma re_search_None_iff:
  "re_search (r, fl) s = None \<longleftrightarrow> (\<forall>i\<le>length s. ends fl r s i = [])"
proof -
  have "set [0..<Suc (length s)] = {i. i \<le> length s}" by auto
  then show ?thesis unfolding re_search_def scan_None_iff by simp
qed

lemma re_search_first:
  assumes "i \<le> length s" and "ends fl r s i \<noteq> []"
    and "\<forall>j<i. ends fl r s j = []"
  shows "re_search (r, fl) s = Some (i, hd (ends fl r s i))"
proof -
  from assms(1) have len: "Suc (length s) = i + Suc (length s - i)" by simp
  have "[0..<i + Suc (length s - i)] = [0..<i] @ [i..<i + Suc (length s - i)]"
    by (rule upt_add_eq_append) simp
  also have "[i..<i + Suc (length s - i)] = i # [Suc i..<i + Suc (length s - i)]"
    by (rule upt_conv_Cons) simp
  finally have "[0..<Suc (length s)] = [0..<i] @ i # [Suc i..<Suc (length s)]"
    by (simp only: len [symmetric])
  moreover from assms(3) have "\<forall>j\<in>set [0..<i]. ends (snd (r, fl)) (fst (r, fl)) s j = []" by simp
  moreover from assms(2) have "ends (snd (r, fl)) (fst (r, fl)) s i \<noteq> []" by simp
  ultimately show ?thesis
    unfolding re_search_def using scan_first [of "[0..<i]" "(r, fl)" s i] by simp
qed

lemma re_search_SomeD:
  assumes "re_search (r, fl) s = Some (i, e)"
  shows "i \<le> length s" and "ends fl r s i \<noteq> []"
    and "e = hd (ends fl r s i)" and "\<forall>j<i. ends fl r s j = []"
proof -
  define P where "P = (\<lambda>i. i \<le> length s \<and> ends fl r s i \<noteq> [])"
  from assms have "re_search (r, fl) s \<noteq> None" by simp
  then obtain i0 where "P i0" unfolding re_search_None_iff P_def by blast
  then obtain m where m: "P m" and least: "\<forall>j<m. \<not> P j"
    using exists_least_iff [of P] by blast
  from m have m1: "m \<le> length s" and m2: "ends fl r s m \<noteq> []"
    unfolding P_def by blast+
  have m3: "\<forall>j<m. ends fl r s j = []"
  proof (intro allI impI)
    fix j assume j: "j < m"
    with least have "\<not> P j" by blast
    moreover from j m1 have "j \<le> length s" by simp
    ultimately show "ends fl r s j = []" unfolding P_def by blast
  qed
  from m1 m2 m3 have "re_search (r, fl) s = Some (m, hd (ends fl r s m))"
    by (rule re_search_first)
  with assms have "Some (i, e) = Some (m, hd (ends fl r s m))" by (rule trans [OF sym])
  then have eq: "i = m" and eq2: "e = hd (ends fl r s m)" by blast+
  show "i \<le> length s" using m1 unfolding eq .
  show "ends fl r s i \<noteq> []" using m2 unfolding eq .
  show "e = hd (ends fl r s i)" using eq2 unfolding eq .
  show "\<forall>j<i. ends fl r s j = []" using m3 unfolding eq .
qed

lemma re_search_Some:
  assumes "re_search p s = Some (i, e)"
  shows "i \<le> e" and "e \<le> length s"
  using scan_upt_Some [of p s False 0 i e] assms unfolding re_search_def by simp_all

lemma set_ends_join:
  "ks \<noteq> [] \<Longrightarrow> set (ends fl (join_keys ks) s i) = (\<Union>k\<in>set ks. set (ends fl k s i))"
  by (induction ks rule: join_keys.induct) simp_all

lemma ends_anchored:
  "set (ends fl (Seq Bnd (Seq r Bnd)) s i) =
     {e \<in> set (ends fl r s i). at_boundary s i \<and> at_boundary s e}"
  by auto

lemma pattern_keys_Inr:
  "ks \<noteq> [] \<Longrightarrow> pattern_keys ks wb fl =
     Inr (if wb then Seq Bnd (Seq (join_keys ks) Bnd) else join_keys ks, fl)"
  by (simp add: pattern_keys_def)

lemma pattern_matches_iff:
  assumes "ks \<noteq> []"
  shows "(i \<le> length s \<and>
          ends fl (if wb then Seq Bnd (Seq (join_keys ks) Bnd) else join_keys ks) s i \<noteq> [])
         \<longleftrightarrow> (\<exists>k\<in>set ks. key_matches_at wb fl k s i)"
proof -
  have "ends fl (if wb then Seq Bnd (Seq (join_keys ks) Bnd) else join_keys ks) s i \<noteq> []
        \<longleftrightarrow> (\<exists>k\<in>set ks. ends fl (if wb then Seq Bnd (Seq k Bnd) else k) s i \<noteq> [])"
  proof (cases wb)
    case True
    have "set (ends fl (Seq Bnd (Seq (join_keys ks) Bnd)) s i) \<noteq> {}
          \<longleftrightarrow> (\<exists>k\<in>set ks. set (ends fl (Seq Bnd (Seq k Bnd)) s i) \<noteq> {})"
      using set_ends_join [OF assms, of fl s] by (auto simp only: ends_anchored)
    with True show ?thesis by (simp only: set_empty if_True)
  next
    case False
    have "set (ends fl (join_keys ks) s i) \<noteq> {} \<longleftrightarrow> (\<exists>k\<in>set ks. set (ends fl k s i) \<noteq> {})"
      using set_ends_join [OF assms, of fl s i] by auto
    with False show ?thesis by (simp only: set_empty if_False)
  qed
  then show ?thesis unfolding key_matches_at_def using assms by blast
qed

lemma ball_upt_Suc: "(\<forall>i\<in>set [0..<Suc n]. P i) \<longleftrightarrow> (\<forall>i\<le>n. P i)"
proof -
  have "set [0..<Suc n] = {i. i \<le> n}" by auto
  then show ?thesis by simp
qed

lemma ball_upt: "(\<forall>j\<in>set [0..<i]. P j) \<longleftrightarrow> (\<forall>j<i. P j)"
proof -
  have "set [0..<i] = {j. j < i}" by auto
  then show ?thesis by simp
qed

lemma py_slice_from_drop:
  "0 \<le> a \<Longrightarrow> py_slice_from text a = drop (nat a) text"
  by (cases "nat a \<le> length text") (simp_all add: py_slice_from_def clamp_index_def min_def)

lemma greedy_unfold:
  assumes "ks \<noteq> []"
  shows "find_end_position_greedy text (Some ks) sp wb fl =
     (case re_search (if wb then Seq Bnd (Seq (join_keys ks) Bnd) else join_keys ks, fl)
             (py_slice_from text sp) of
        None \<Rightarrow> Inr (int (length text))
      | Some (s, e) \<Rightarrow> Inr (sp + int s))"
  by (simp add: find_end_position_greedy_def pattern_keys_Inr [OF assms])

lemma greedy_no_match:
  assumes "ks \<noteq> []"
    and "\<forall>i\<le>length (py_slice_from text sp). \<forall>k\<in>set ks. \<not> key_matches_at wb fl k (py_slice_from text sp) i"
  shows "find_end_position_greedy text (Some ks) sp wb fl = Inr (int (length text))"
proof -
  let ?r = "if wb then Seq Bnd (Seq (join_keys ks) Bnd) else join_keys ks"
  let ?s = "py_slice_from text sp"
  have "\<forall>i\<le>length ?s. ends fl ?r ?s i = []"
  proof (intro allI impI)
    fix i assume i: "i \<le> length ?s"
    with assms(2) have "\<not> (\<exists>k\<in>set ks. key_matches_at wb fl k ?s i)" by blast
    with pattern_matches_iff [OF assms(1), of i ?s fl wb] i show "ends fl ?r ?s i = []" by blast
  qed
  then have "re_search (?r, fl) ?s = None"
    by (simp only: re_search_None_iff)
  then show ?thesis by (simp only: greedy_unfold [OF assms(1)] option.case)
qed

lemma greedy_first_match:
  assumes "ks \<noteq> []"
    and "\<exists>k\<in>set ks. key_matches_at wb fl k (py_slice_from text sp) i"
    and "\<forall>j<i. \<forall>k\<in>set ks. \<not> key_matches_at wb fl k (py_slice_from text sp) j"
  shows "find_end_position_greedy text (Some ks) sp wb fl = Inr (sp + int i)"
proof -
  let ?r = "if wb then Seq Bnd (Seq (join_keys ks) Bnd) else join_keys ks"
  let ?s = "py_slice_from text sp"
  from assms(2) pattern_matches_iff [OF assms(1), of i ?s fl wb]
  have i: "i \<le> length ?s" "ends fl ?r ?s i \<noteq> []" by blast+
  have "\<forall>j<i. ends fl ?r ?s j = []"
  proof (intro allI impI)
    fix j assume j: "j < i"
    with i(1) have "j \<le> length ?s" by simp
    moreover from j assms(3) have "\<not> (\<exists>k\<in>set ks. key_matches_at wb fl k ?s j)" by blast
    ultimately show "ends fl ?r ?s j = []"
      using pattern_matches_iff [OF assms(1), of j ?s fl wb] by blast
  qed
  with i have "re_search (?r, fl) ?s = Some (i, hd (ends fl ?r ?s i))"
    by (intro re_search_first)
  then show ?thesis by (simp only: greedy_unfold [OF assms(1)] option.case prod.case)
qed

lemma greedy_set_eq:
  assumes "ks \<noteq> []" and "set ks' = set ks"
  shows "find_end_position_greedy text (Some ks') sp wb fl =
         find_end_position_greedy text (Some ks) sp wb fl"
proof -
  let ?s = "py_slice_from text sp"
  define P where "P = (\<lambda>i. \<exists>k\<in>set ks. key_matches_at wb fl k ?s i)"
  from assms have ne: "ks' \<noteq> []" by auto
  show ?thesis
  proof (cases "\<exists>i. P i")
    case False
    then have n: "\<forall>i\<le>length ?s. \<forall>k\<in>set ks. \<not> key_matches_at wb fl k ?s i"
      unfolding P_def by blast
    then have n': "\<forall>i\<le>length ?s. \<forall>k\<in>set ks'. \<not> key_matches_at wb fl k ?s i"
      unfolding assms(2) .
    from greedy_no_match [OF ne n'] greedy_no_match [OF assms(1) n]
    show ?thesis by (rule trans [OF _ sym])
  next
    case True
    then obtain m where m: "P m" and least: "\<forall>j<m. \<not> P j"
      using exists_least_iff [of P] by blast
    from m have a: "\<exists>k\<in>set ks. key_matches_at wb fl k ?s m" unfolding P_def .
    from least have b: "\<forall>j<m. \<forall>k\<in>set ks. \<not> key_matches_at wb fl k ?s j"
      unfolding P_def by blast
    from a have a': "\<exists>k\<in>set ks'. key_matches_at wb fl k ?s m" unfolding assms(2) .
    from b have b': "\<forall>j<m. \<forall>k\<in>set ks'. \<not> key_matches_at wb fl k ?s j" unfolding assms(2) .
    from greedy_first_match [OF ne a' b'] greedy_first_match [OF assms(1) a b]
    show ?thesis by (rule trans [OF _ sym])
  qed
qed

lemma key_search_None_iff:
  "re_search (if wb then Seq Bnd (Seq k Bnd) else k, fl) s = None
     \<longleftrightarrow> (\<forall>i\<le>length s. \<not> key_matches_at wb fl k s i)"
  unfolding re_search_None_iff key_matches_at_def by blast

lemma key_search_first:
  assumes "key_matches_at wb fl k s i" and "\<forall>j<i. \<not> key_matches_at wb fl k s j"
  shows "\<exists>e. re_search (if wb then Seq Bnd (Seq k Bnd) else k, fl) s = Some (i, e)"
proof -
  let ?r = "if wb then Seq Bnd (Seq k Bnd) else k"
  from assms(1) have i: "i \<le> length s" "ends fl ?r s i \<noteq> []"
    unfolding key_matches_at_def by blast+
  have "\<forall>j<i. ends fl ?r s j = []"
  proof (intro allI impI)
    fix j assume j: "j < i"
    with i(1) have "j \<le> length s" by simp
    moreover from j assms(2) have "\<not> key_matches_at wb fl k s j" by blast
    ultimately show "ends fl ?r s j = []" unfolding key_matches_at_def by blast
  qed
  with i have "re_search (?r, fl) s = Some (i, hd (ends fl ?r s i))" by (intro re_search_first)
  then show ?thesis by blast
qed

lemma try_keys_Cons:
  "try_keys text st (k # ks) sp wb fl =
     (case re_search (if wb then Seq Bnd (Seq k Bnd) else k, fl) st of
        Some (s, e) \<Rightarrow> Inr (sp + int s)
      | None \<Rightarrow> try_keys text st ks sp wb fl)"
  by (simp add: pattern_keys_def)

lemma try_keys_skip:
  assumes "\<forall>k\<in>set pre. \<forall>i\<le>length st. \<not> key_matches_at wb fl k st i"
  shows "try_keys text st (pre @ ks) sp wb fl = try_keys text st ks sp wb fl"
  using assms
proof (induction pre)
  case Nil
  show ?case by simp
next
  case (Cons k pre)
  from Cons.prems have "re_search (if wb then Seq Bnd (Seq k Bnd) else k, fl) st = None"
    unfolding key_search_None_iff by simp
  moreover from Cons.prems have "\<forall>k\<in>set pre. \<forall>i\<le>length st. \<not> key_matches_at wb fl k st i"
    by simp
  ultimately show ?case using Cons.IH by (simp only: append_Cons try_keys_Cons option.case)
qed

lemma sequential_no_match:
  assumes "\<forall>k\<in>set ks. \<forall>i\<le>length (py_slice_from text sp). \<not> key_matches_at wb fl k (py_slice_from text sp) i"
  shows "find_end_position_sequential text (Some ks) sp wb fl = Inr (int (length text))"
  using try_keys_skip [OF assms, of "text" "[]" sp]
  by (simp add: find_end_position_sequential_def)

lemma sequential_first_key:
  assumes "\<forall>k\<in>set pre. \<forall>i\<le>length (py_slice_from text sp). \<not> key_matches_at wb fl k (py_slice_from text sp) i"
    and "key_matches_at wb fl k (py_slice_from text sp) i"
    and "\<forall>j<i. \<not> key_matches_at wb fl k (py_slice_from text sp) j"
  shows "find_end_position_sequential text (Some (pre @ k # post)) sp wb fl = Inr (sp + int i)"
proof -
  from key_search_first [OF assms(2,3)] obtain e
    where "re_search (if wb then Seq Bnd (Seq k Bnd) else k, fl) (py_slice_from text sp) = Some (i, e)"
    by blast
  then have "try_keys text (py_slice_from text sp) (k # post) sp wb fl = Inr (sp + int i)"
    by (simp only: try_keys_Cons option.case prod.case)
  with try_keys_skip [OF assms(1), of "text" "k # post" sp]
  show ?thesis by (simp add: find_end_position_sequential_def)
qed

lemma star_ends_step:
  assumes "\<And>j e. j \<le> m \<Longrightarrow> e \<in> set (f j) \<Longrightarrow> e \<le> m"
  shows "i \<le> m \<Longrightarrow> m - i < n \<Longrightarrow> star_ends f (Suc n) i = star_ends f n i"
proof (induction n arbitrary: i)
  case 0
  then show ?case by simp
next
  case (Suc n)
  have eq: "map (\<lambda>e. if i < e then star_ends f (Suc n) e else [i]) (f i)
        = map (\<lambda>e. if i < e then star_ends f n e else [i]) (f i)"
  proof (intro map_cong refl)
    fix e assume e: "e \<in> set (f i)"
    show "(if i < e then star_ends f (Suc n) e else [i]) = (if i < e then star_ends f n e else [i])"
    proof (cases "i < e")
      case True
      from assms [OF Suc.prems(1) e] have em: "e \<le> m" .
      with True Suc.prems(2) have "m - e < n" by simp
      with em have "star_ends f (Suc n) e = star_ends f n e" by (rule Suc.IH)
      with True show ?thesis by simp
    next
      case False
      then show ?thesis by simp
    qed
  qed
  have "star_ends f (Suc (Suc n)) i
        = concat (map (\<lambda>e. if i < e then star_ends f (Suc n) e else [i]) (f i)) @ [i]"
    by (rule star_ends.simps(2))
  also have "\<dots> = concat (map (\<lambda>e. if i < e then star_ends f n e else [i]) (f i)) @ [i]"
    by (simp only: eq)
  also have "\<dots> = star_ends f (Suc n) i" by (rule star_ends.simps(2) [symmetric])
  finally show ?case .
qed

lemma star_ends_enough:
  assumes "\<And>j e. j \<le> m \<Longrightarrow> e \<in> set (f j) \<Longrightarrow> e \<le> m" and "i \<le> m" and "m - i < n"
  shows "star_ends f (n + k) i = star_ends f n i"
proof (induction k)
  case 0
  show ?case by simp
next
  case (Suc k)
  from assms(3) have "m - i < n + k" by simp
  with assms(1,2) have "star_ends f (Suc (n + k)) i = star_ends f (n + k) i"
    by (intro star_ends_step) simp_all
  with Suc show ?case by simp
qed

lemma ends_Star_unfold:
  assumes "i \<le> length s"
  shows "ends fl (Star a) s i =
     concat (map (\<lambda>e. if i < e then ends fl (Star a) s e else [i]) (ends fl a s i)) @ [i]"
proof -
  have lhs: "ends fl (Star a) s i =
      concat (map (\<lambda>e. if i < e then star_ends (ends fl a s) (length s - i) e else [i])
                (ends fl a s i)) @ [i]"
    by simp
  have eq: "map (\<lambda>e. if i < e then star_ends (ends fl a s) (length s - i) e else [i]) (ends fl a s i)
        = map (\<lambda>e. if i < e then ends fl (Star a) s e else [i]) (ends fl a s i)"
  proof (intro map_cong refl)
    fix e assume e: "e \<in> set (ends fl a s i)"
    show "(if i < e then star_ends (ends fl a s) (length s - i) e else [i])
          = (if i < e then ends fl (Star a) s e else [i])"
    proof (cases "i < e")
      case True
      from ends_le [OF assms e] have el: "e \<le> length s" .
      with True have "Suc (length s - e) \<le> length s - i" by simp
      then obtain d where k: "length s - i = Suc (length s - e) + d" using le_Suc_ex by blast
      have "star_ends (ends fl a s) (Suc (length s - e) + d) e
            = star_ends (ends fl a s) (Suc (length s - e)) e"
        by (rule star_ends_enough [where m = "length s"]) (use el ends_le in auto)
      with True k show ?thesis by simp
    next
      case False
      then show ?thesis by simp
    qed
  qed
  show ?thesis by (rule trans [OF lhs]) (simp only: eq)
qed

lemma raw_of_anchored: "key_matches_at True fl k s i \<Longrightarrow> key_matches_at False fl k s i"
proof -
  assume a: "key_matches_at True fl k s i"
  then have i: "i \<le> length s" unfolding key_matches_at_def by blast
  from a have "ends fl (Seq Bnd (Seq k Bnd)) s i \<noteq> []"
    unfolding key_matches_at_def if_True by blast
  then have "set (ends fl (Seq Bnd (Seq k Bnd)) s i) \<noteq> {}" unfolding set_empty .
  then have "set (ends fl k s i) \<noteq> {}" unfolding ends_anchored by auto
  then have "ends fl k s i \<noteq> []" unfolding set_empty .
  with i show ?thesis unfolding key_matches_at_def if_False by blast
qed

lemma char_eq_icase: "char_eq fl c d \<Longrightarrow> char_eq IGNORECASE c d"
  by (cases fl) simp_all

lemma star_ends_mono:
  assumes "\<And>j. set (f j) \<subseteq> set (g j)"
  shows "set (star_ends f n i) \<subseteq> set (star_ends g n i)"
proof (induction n arbitrary: i)
  case 0
  show ?case by simp
next
  case (Suc n)
  show ?case
  proof
    fix e assume "e \<in> set (star_ends f (Suc n) i)"
    then consider "e = i" | x where "x \<in> set (f i)" "i < x" "e \<in> set (star_ends f n x)"
      by (auto split: if_splits)
    then show "e \<in> set (star_ends g (Suc n) i)"
    proof cases
      case 1
      then show ?thesis by simp
    next
      case 2
      from 2(1) assms have "x \<in> set (g i)" by blast
      moreover from 2(3) Suc.IH have "e \<in> set (star_ends g n x)" by blast
      ultimately show ?thesis using 2(2) by auto
    qed
  qed
qed

lemma ends_icase_mono: "set (ends fl r s i) \<subseteq> set (ends IGNORECASE r s i)"
proof (induction r arbitrary: i)
  case (Lit c)
  show ?case using char_eq_icase [of fl c "s ! i"] by auto
next
  case (Seq a b)
  show ?case
  proof
    fix e assume "e \<in> set (ends fl (Seq a b) s i)"
    then obtain m where "m \<in> set (ends fl a s i)" "e \<in> set (ends fl b s m)" by auto
    with Seq.IH have "m \<in> set (ends IGNORECASE a s i)" "e \<in> set (ends IGNORECASE b s m)"
      by blast+
    then show "e \<in> set (ends IGNORECASE (Seq a b) s i)" by auto
  qed
next
  case (Alt a b)
  from Alt.IH [of i] show ?case by auto
next
  case (Star a)
  from star_ends_mono [of "ends fl a s" "ends IGNORECASE a s", OF Star.IH]
  show ?case by (simp only: ends.simps)
qed simp_all

lemma re_finditer_search:
  "re_finditer p s = (case re_search p s of None \<Rightarrow> [] | Some (i, e) \<Rightarrow> (i, e) # finditer_from p s e (e = i))"
  unfolding re_finditer_def re_search_def by (subst finditer_from.simps) simp

section \<open>Facts about the finders and the extractor\<close>

lemma extract_unfold:
  "extract self text =
     (case find_start_position text (start_keys self) True IGNORECASE of
        (log, Inl err) \<Rightarrow> (log, Inl err)
      | (log, Inr (s, e)) \<Rightarrow>
          if s = - 1 then (log, Inr [])
          else (case end_position self text s True IGNORECASE of
                  Inl err \<Rightarrow> (log, Inl err)
                | Inr end_idx \<Rightarrow>
                    (log, Inr (strip (py_slice text (if include_start_keys self then s else e) end_idx)))))"
  by (simp add: extract_def end_position_def Let_def split: prod.splits sum.splits)

lemma end_position_include [simp]:
  "end_position (self\<lparr>include_start_keys := b\<rparr>) text sp wb fl = end_position self text sp wb fl"
  by (simp add: end_position_def)

lemma try_keys_range:
  "try_keys text st ks sp wb fl = Inr e \<Longrightarrow> e = int (length text) \<or> (\<exists>i\<le>length st. e = sp + int i)"
proof (induction ks)
  case Nil
  then show ?case by simp
next
  case (Cons k ks)
  show ?case
  proof (cases "re_search (if wb then Seq Bnd (Seq k Bnd) else k, fl) st")
    case None
    with Cons.prems have "try_keys text st ks sp wb fl = Inr e"
      by (simp only: try_keys_Cons option.case)
    then show ?thesis by (rule Cons.IH)
  next
    case (Some m)
    obtain i j where m: "m = (i, j)" by (cases m)
    from Some m Cons.prems have "e = sp + int i"
      by (simp only: try_keys_Cons option.case prod.case sum.inject)
    moreover from re_search_SomeD(1) [of _ fl st i j] Some m have "i \<le> length st" by simp
    ultimately show ?thesis by blast
  qed
qed

lemma greedy_range:
  assumes "find_end_position_greedy text keys sp wb fl = Inr e"
  shows "e = int (length text) \<or> (\<exists>i\<le>length (py_slice_from text sp). e = sp + int i)"
proof (cases keys)
  case None
  with assms show ?thesis by (simp add: find_end_position_greedy_def)
next
  case (Some ks)
  show ?thesis
  proof (cases "ks = []")
    case True
    with assms Some show ?thesis by (simp add: find_end_position_greedy_def pattern_keys_def)
  next
    case False
    let ?r = "if wb then Seq Bnd (Seq (join_keys ks) Bnd) else join_keys ks"
    show ?thesis
    proof (cases "re_search (?r, fl) (py_slice_from text sp)")
      case None
      with assms Some have "e = int (length text)"
        by (simp only: greedy_unfold [OF False] option.case sum.inject)
      then show ?thesis by blast
    next
      case (Some m)
      obtain i j where m: "m = (i, j)" by (cases m)
      from Some m assms \<open>keys = Some ks\<close> have "e = sp + int i"
        by (simp only: greedy_unfold [OF False] option.case prod.case sum.inject)
      moreover from re_search_SomeD(1) [of ?r fl "py_slice_from text sp" i j] Some m
      have "i \<le> length (py_slice_from text sp)" by simp
      ultimately show ?thesis by blast
    qed
  qed
qed

lemma sequential_range:
  assumes "find_end_position_sequential text keys sp wb fl = Inr e"
  shows "e = int (length text) \<or> (\<exists>i\<le>length (py_slice_from text sp). e = sp + int i)"
proof (cases keys)
  case None
  with assms show ?thesis by (simp add: find_end_position_sequential_def)
next
  case (Some ks)
  with assms have "try_keys text (py_slice_from text sp) ks sp wb fl = Inr e"
    by (simp add: find_end_position_sequential_def)
  then show ?thesis by (rule try_keys_range)
qed

lemma end_position_range:
  assumes "end_position self text sp wb fl = Inr e" and "0 \<le> sp" and "sp \<le> int (length text)"
  shows "sp \<le> e" and "e \<le> int (length text)"
proof -
  from assms(1) have "e = int (length text) \<or> (\<exists>i\<le>length (py_slice_from text sp). e = sp + int i)"
    unfolding end_position_def using greedy_range sequential_range by (auto split: if_splits)
  moreover have "length (py_slice_from text sp) = length text - nat sp"
    unfolding py_slice_from_drop [OF assms(2)] by simp
  ultimately have r: "e = int (length text) \<or> (\<exists>i\<le>length text - nat sp. e = sp + int i)"
    by simp
  from r assms(2,3) show "sp \<le> e" by auto
  from r assms(2,3) show "e \<le> int (length text)" by auto
qed

lemma py_slice_take: "0 \<le> b \<Longrightarrow> py_slice text 0 b = take (nat b) text"
  by (simp add: py_slice_def clamp_index_def min_def)

lemma py_slice_drop: "0 \<le> a \<Longrightarrow> py_slice text a (int (length text)) = drop (nat a) text"
  by (simp add: py_slice_def clamp_index_def min_def)

lemma find_start_position_span:
  assumes "find_start_position text keys wb fl = (log, Inr (s, e))" and "s \<noteq> - 1"
  shows "0 \<le> s" and "s \<le> e" and "e \<le> int (length text)"
proof -
  have "0 \<le> s \<and> s \<le> e \<and> e \<le> int (length text)"
  proof (cases keys)
    case None
    with assms show ?thesis by (simp add: find_start_position_def)
  next
    case (Some ks)
    show ?thesis
    proof (cases "ks = []")
      case True
      with assms Some show ?thesis by (simp add: find_start_position_def pattern_keys_def)
    next
      case False
      let ?r = "if wb then Seq Bnd (Seq (join_keys ks) Bnd) else join_keys ks"
      show ?thesis
      proof (cases "re_search (?r, fl) text")
        case None
        with assms Some False show ?thesis
          by (simp add: find_start_position_def pattern_keys_Inr Let_def)
      next
        case (Some m)
        obtain i j where m: "m = (i, j)" by (cases m)
        from Some m assms \<open>keys = Some ks\<close> False have "s = int i" "e = int j"
          by (simp_all add: find_start_position_def pattern_keys_Inr Let_def)
        moreover from re_search_Some [of "(?r, fl)" "text" i j] Some m
        have "i \<le> j" "j \<le> length text" by simp_all
        ultimately show ?thesis by simp
      qed
    qed
  qed
  then show "0 \<le> s" and "s \<le> e" and "e \<le> int (length text)" by simp_all
qed

lemma collect_sections_step:
  "collect_sections self text (span # rest) acc =
     (case candidate_section self text span of
        Inl err \<Rightarrow> Inl err
      | Inr c \<Rightarrow> collect_sections self text rest (if c \<noteq> [] then acc @ [c] else acc))"
  by (cases span) (simp add: candidate_section_def Let_def split: sum.splits)

lemma collect_sections_complete:
  "map (candidate_section self text) spans = map Inr cands \<Longrightarrow>
     collect_sections self text spans acc = Inr (acc @ filter (\<lambda>c. c \<noteq> []) cands)"
proof (induction spans arbitrary: acc cands)
  case Nil
  then show ?case by simp
next
  case (Cons span spans)
  from Cons.prems obtain c cs where cands: "cands = c # cs"
    and c: "candidate_section self text span = Inr c"
    and cs: "map (candidate_section self text) spans = map Inr cs"
    by (cases cands) simp_all
  from Cons.IH [OF cs] c show ?case
    by (simp only: collect_sections_step cands sum.case filter.simps append_assoc
        split: if_splits) simp
qed

lemma collect_sections_sound:
  "collect_sections self text spans acc = Inr secs \<Longrightarrow>
     \<exists>cands. map (candidate_section self text) spans = map Inr cands
           \<and> secs = acc @ filter (\<lambda>c. c \<noteq> []) cands"
proof (induction spans arbitrary: acc)
  case Nil
  then show ?case by simp
next
  case (Cons span spans)
  from Cons.prems obtain c where c: "candidate_section self text span = Inr c"
    and r: "collect_sections self text spans (if c \<noteq> [] then acc @ [c] else acc) = Inr secs"
    unfolding collect_sections_step by (cases "candidate_section self text span") simp_all
  from Cons.IH [OF r] obtain cs where cs: "map (candidate_section self text) spans = map Inr cs"
    and s: "secs = (if c \<noteq> [] then acc @ [c] else acc) @ filter (\<lambda>c. c \<noteq> []) cs"
    by blast
  from c cs have "map (candidate_section self text) (span # spans) = map Inr (c # cs)" by simp
  moreover from s have "secs = acc @ filter (\<lambda>c. c \<noteq> []) (c # cs)" by simp
  ultimately show ?case by blast
qed

lemma pattern_keys_Inl: "pattern_keys ks wb fl = Inl err \<Longrightarrow> err = EmptyKeys \<and> ks = []"
  by (simp add: pattern_keys_def split: if_splits)

lemma greedy_Inl:
  "find_end_position_greedy text keys sp wb fl = Inl err \<Longrightarrow> err = EmptyKeys \<and> keys = Some []"
  by (auto simp: find_end_position_greedy_def split: option.splits sum.splits prod.splits
      dest: pattern_keys_Inl)

lemma try_keys_no_error: "try_keys text st ks sp wb fl \<noteq> Inl err"
proof (induction ks)
  case Nil
  show ?case by simp
next
  case (Cons k ks)
  show ?case
  proof (cases "re_search (if wb then Seq Bnd (Seq k Bnd) else k, fl) st")
    case None
    with Cons.IH show ?thesis by (simp only: try_keys_Cons option.case not_False_eq_True)
  next
    case (Some m)
    obtain i j where "m = (i, j)" by (cases m)
    with Some show ?thesis by (simp only: try_keys_Cons option.case prod.case sum.distinct not_False_eq_True)
  qed
qed

lemma sequential_no_error: "find_end_position_sequential text keys sp wb fl \<noteq> Inl err"
  by (simp add: find_end_position_sequential_def try_keys_no_error split: option.splits)

lemma end_position_Inl:
  "end_position self text sp wb fl = Inl err \<Longrightarrow> err = EmptyKeys \<and> end_keys self = Some []"
  unfolding end_position_def using greedy_Inl sequential_no_error by (auto split: if_splits)

lemma strip_core:
  assumes "\<forall>x\<in>set a. is_space x" and "\<forall>x\<in>set b. is_space x"
    and "c = [] \<or> (\<not> is_space (hd c) \<and> \<not> is_space (last c))"
  shows "strip (a @ c @ b) = c"
proof (cases "c = []")
  case True
  from assms(1,2) have "\<forall>x\<in>set (a @ b). is_space x" by auto
  then have d: "dropWhile is_space (a @ b) = []" by (simp only: dropWhile_eq_Nil_conv)
  have "strip (a @ [] @ b) = []" unfolding strip_def append_Nil d by simp
  with True show ?thesis by (simp only:)
next
  case False
  with assms(3) have h: "\<not> is_space (hd c)" and l: "\<not> is_space (last c)" by simp_all
  from assms(1) have "\<And>x. x \<in> set a \<Longrightarrow> is_space x" by simp
  then have "dropWhile is_space (a @ c @ b) = dropWhile is_space (c @ b)"
    by (rule dropWhile_append2)
  also from False h have "\<dots> = c @ b" by (cases c) simp_all
  finally have 1: "dropWhile is_space (a @ c @ b) = c @ b" .
  from assms(2) have "\<And>x. x \<in> set (rev b) \<Longrightarrow> is_space x" by simp
  then have "dropWhile is_space (rev b @ rev c) = dropWhile is_space (rev c)"
    by (rule dropWhile_append2)
  also from False l have "\<dots> = rev c" by (cases "rev c") (auto simp: last_rev [symmetric] hd_rev)
  finally have "dropWhile is_space (rev (c @ b)) = rev c" by simp
  with 1 show ?thesis by (simp add: strip_def)
qed

lemma strip_decomp:
  "\<exists>a b. x = a @ strip x @ b \<and> (\<forall>y\<in>set a. is_space y) \<and> (\<forall>y\<in>set b. is_space y)
         \<and> (strip x = [] \<or> (\<not> is_space (hd (strip x)) \<and> \<not> is_space (last (strip x))))"
proof -
  let ?a = "takeWhile is_space x"
  let ?y = "dropWhile is_space x"
  let ?b = "rev (takeWhile is_space (rev ?y))"
  have x: "x = ?a @ ?y" by simp
  have "?y = rev (takeWhile is_space (rev ?y) @ dropWhile is_space (rev ?y))"
    by (simp only: takeWhile_dropWhile_id rev_rev_ident)
  also have "\<dots> = rev (dropWhile is_space (rev ?y)) @ ?b" by (rule rev_append)
  finally have y: "?y = strip x @ ?b" unfolding strip_def .
  have a: "\<forall>y\<in>set ?a. is_space y" by (auto dest: set_takeWhileD)
  have b: "\<forall>y\<in>set ?b. is_space y" by (auto dest: set_takeWhileD)
  have c: "strip x = [] \<or> (\<not> is_space (hd (strip x)) \<and> \<not> is_space (last (strip x)))"
  proof (cases "strip x = []")
    case True
    then show ?thesis by simp
  next
    case False
    then have ne: "dropWhile is_space (rev ?y) \<noteq> []" by (simp add: strip_def)
    then have "\<not> is_space (hd (dropWhile is_space (rev ?y)))" by (rule hd_dropWhile)
    with ne have l: "\<not> is_space (last (strip x))" by (simp add: strip_def last_rev)
    from False y have "?y \<noteq> []" by (metis append_is_Nil_conv)
    then have "\<not> is_space (hd ?y)" by (rule hd_dropWhile)
    moreover from y False have "hd ?y = hd (strip x)" by (metis hd_append2)
    ultimately show ?thesis using l by simp
  qed
  from x y have "x = ?a @ strip x @ ?b" by simp
  with a b c show ?thesis by blast
qed

lemma slice_nat:
  assumes "a \<le> length text" and "b \<le> length text"
  shows "py_slice text (int a) (int b) = take (b - a) (drop a text)"
  using assms by (simp add: py_slice_def clamp_index_def)

lemma slice_append:
  assumes "a \<le> b" and "b \<le> c"
  shows "take (c - a) (drop a xs) = take (b - a) (drop a xs) @ take (c - b) (drop b xs)"
proof -
  from assms have "c - a = (b - a) + (c - b)" by simp
  then have "take (c - a) (drop a xs) = take (b - a) (drop a xs) @ take (c - b) (drop (b - a) (drop a xs))"
    by (simp only: take_add)
  moreover from assms(1) have "drop (b - a) (drop a xs) = drop b xs" by simp
  ultimately show ?thesis by simp
qed

lemma strip_after_marker:
  assumes "m = [] \<or> (\<not> is_space (hd m) \<and> \<not> is_space (last m))"
  shows "take (length m) (strip (m @ rest)) = m
       \<and> strip (drop (length m) (strip (m @ rest))) = strip rest"
proof -
  from strip_decomp [of rest] obtain a b
    where r: "rest = a @ strip rest @ b" and a: "\<forall>y\<in>set a. is_space y" and b: "\<forall>y\<in>set b. is_space y"
      and c: "strip rest = [] \<or> (\<not> is_space (hd (strip rest)) \<and> \<not> is_space (last (strip rest)))"
    by blast
  show ?thesis
  proof (cases "m = []")
    case True
    from strip_core [OF a b c] r have "strip (strip rest) = strip rest"
      using strip_core [of "[]" "[]" "strip rest"] c by simp
    with True show ?thesis by simp
  next
    case False
    with assms have hm: "\<not> is_space (hd m)" and lm: "\<not> is_space (last m)" by simp_all
    show ?thesis
    proof (cases "strip rest = []")
      case True
      with r have "rest = a @ b" by simp
      then have "m @ rest = [] @ m @ (a @ b)" by simp
      moreover from a b have "\<forall>y\<in>set (a @ b). is_space y" by auto
      ultimately have "strip (m @ rest) = m"
        using strip_core [of "[]" "a @ b" m] hm lm by simp
      with True show ?thesis by (simp add: strip_def)
    next
      case ne: False
      with c have hc: "\<not> is_space (hd (strip rest))" and lc: "\<not> is_space (last (strip rest))"
        by simp_all
      let ?core = "m @ a @ strip rest"
      from r have "m @ rest = [] @ ?core @ b" by simp
      moreover from False hm have "\<not> is_space (hd ?core)" by simp
      moreover from ne lc have "\<not> is_space (last ?core)" by simp
      ultimately have s: "strip (m @ rest) = ?core"
        using strip_core [of "[]" b ?core] b by simp
      from strip_core [of a "[]" "strip rest"] a c have "strip (a @ strip rest) = strip rest"
        by simp
      with s show ?thesis by simp
    qed
  qed
qed

section \<open>Facts linking the code to the specification's wording\<close>

lemma find_upt_Some:
  assumes "find P [0..<n] = Some i"
  shows "i < n" and "P i" and "\<forall>j<i. \<not> P j"
proof -
  from assms obtain k where k: "k < length [0..<n]" "P ([0..<n] ! k)" "i = [0..<n] ! k"
    "\<forall>j<k. \<not> P ([0..<n] ! j)"
    unfolding find_Some_iff by blast
  from k(1) have kn: "k < n" by simp
  with k(3) have ik: "i = k" by simp
  from kn ik show "i < n" by simp
  from k(2) kn ik show "P i" by simp
  show "\<forall>j<i. \<not> P j"
  proof (intro allI impI)
    fix j assume j: "j < i"
    with ik k(4) have "\<not> P ([0..<n] ! j)" by simp
    moreover from j ik kn have "[0..<n] ! j = j" by simp
    ultimately show "\<not> P j" by simp
  qed
qed

lemma find_upt_None: "find P [0..<Suc n] = None \<Longrightarrow> \<forall>i\<le>n. \<not> P i"
proof -
  assume "find P [0..<Suc n] = None"
  then have "\<forall>i\<in>set [0..<Suc n]. \<not> P i" unfolding find_None_iff by blast
  then show ?thesis by (simp only: ball_upt_Suc)
qed

lemma greedy_spec:
  assumes "ks \<noteq> []"
  shows "find_end_position_greedy text (Some ks) sp wb fl =
     Inr (case earliest_match wb fl ks (py_slice_from text sp) of
            None \<Rightarrow> int (length text)
          | Some i \<Rightarrow> sp + int i)"
proof (cases "earliest_match wb fl ks (py_slice_from text sp)")
  case None
  then have "\<forall>i\<le>length (py_slice_from text sp). \<not> (\<exists>k\<in>set ks. key_matches_at wb fl k (py_slice_from text sp) i)"
    unfolding earliest_match_def by (rule find_upt_None)
  then have "\<forall>i\<le>length (py_slice_from text sp). \<forall>k\<in>set ks. \<not> key_matches_at wb fl k (py_slice_from text sp) i"
    by blast
  from greedy_no_match [OF assms this] None show ?thesis by simp
next
  case (Some i)
  note f = find_upt_Some [OF Some [unfolded earliest_match_def]]
  from f(3) have "\<forall>j<i. \<forall>k\<in>set ks. \<not> key_matches_at wb fl k (py_slice_from text sp) j"
    by blast
  from greedy_first_match [OF assms f(2) this] Some show ?thesis by simp
qed

lemma sequential_spec:
  "find_end_position_sequential text (Some ks) sp wb fl =
     Inr (case first_listed_match wb fl ks (py_slice_from text sp) of
            None \<Rightarrow> int (length text)
          | Some i \<Rightarrow> sp + int i)"
proof -
  let ?s = "py_slice_from text sp"
  let ?Q = "\<lambda>k. \<exists>i\<in>set [0..<Suc (length ?s)]. key_matches_at wb fl k ?s i"
  show ?thesis
  proof (cases "find ?Q ks")
    case None
    then have "\<forall>k\<in>set ks. \<not> ?Q k" unfolding find_None_iff by blast
    then have "\<forall>k\<in>set ks. \<forall>i\<in>set [0..<Suc (length ?s)]. \<not> key_matches_at wb fl k ?s i"
      by blast
    then have "\<forall>k\<in>set ks. \<forall>i\<le>length ?s. \<not> key_matches_at wb fl k ?s i"
      by (simp only: ball_upt_Suc)
    from sequential_no_match [OF this] None show ?thesis
      by (simp add: first_listed_match_def)
  next
    case (Some k)
    then obtain n where n: "n < length ks" "?Q (ks ! n)" "k = ks ! n" "\<forall>j<n. \<not> ?Q (ks ! j)"
      unfolding find_Some_iff by blast
    from n(1,3) have ks: "ks = take n ks @ k # drop (Suc n) ks" by (simp add: id_take_nth_drop)
    have "\<forall>k'\<in>set (take n ks). \<not> ?Q k'"
    proof
      fix k' assume "k' \<in> set (take n ks)"
      then obtain j where "j < n" "k' = ks ! j" using n(1)
        by (auto simp: in_set_conv_nth)
      with n(4) show "\<not> ?Q k'" by simp
    qed
    then have "\<forall>k'\<in>set (take n ks). \<forall>i\<in>set [0..<Suc (length ?s)]. \<not> key_matches_at wb fl k' ?s i"
      by blast
    then have pre: "\<forall>k'\<in>set (take n ks). \<forall>i\<le>length ?s. \<not> key_matches_at wb fl k' ?s i"
      by (simp only: ball_upt_Suc)
    from n(2,3) have "?Q k" by simp
    then have "find (\<lambda>i. key_matches_at wb fl k ?s i) [0..<Suc (length ?s)] \<noteq> None"
      unfolding find_None_iff by blast
    then obtain i where i: "find (\<lambda>i. key_matches_at wb fl k ?s i) [0..<Suc (length ?s)] = Some i"
      by blast
    note f = find_upt_Some [OF i]
    from sequential_first_key [OF pre f(2,3), of "drop (Suc n) ks"] ks
    have "find_end_position_sequential text (Some ks) sp wb fl = Inr (sp + int i)" by simp
    with Some i show ?thesis by (simp add: first_listed_match_def)
  qed
qed

lemma end_position_spec:
  assumes "end_keys self \<noteq> Some [] \<or> match_strategy self \<noteq> ''greedy''" and "0 \<le> sp"
  shows "end_position self text sp (word_boundary self) (flags self) = Inr (section_end self text sp)"
proof (cases "end_keys self")
  case None
  then show ?thesis
    by (simp add: end_position_def section_end_def find_end_position_greedy_def
        find_end_position_sequential_def)
next
  case (Some ks)
  show ?thesis
  proof (cases "match_strategy self = ''greedy''")
    case True
    with assms(1) Some have "ks \<noteq> []" by simp
    from greedy_spec [OF this, of "text" sp "word_boundary self" "flags self"] True Some
    show ?thesis
      by (simp add: end_position_def section_end_def py_slice_from_drop [OF assms(2)])
  next
    case False
    with sequential_spec [of "text" ks sp "word_boundary self" "flags self"] Some
    show ?thesis
      by (simp add: end_position_def section_end_def py_slice_from_drop [OF assms(2)])
  qed
qed

lemma candidate_section_spec:
  assumes "end_keys self \<noteq> Some [] \<or> match_strategy self \<noteq> ''greedy''" and "0 \<le> fst span"
  shows "candidate_section self text span = Inr (expected_section self text span)"
  using end_position_spec [OF assms, of "text"]
  by (simp add: candidate_section_def end_position_def expected_section_def)

lemma candidate_section_raises:
  assumes "end_keys self = Some []" and "match_strategy self = ''greedy''"
  shows "candidate_section self text span = Inl EmptyKeys"
  using assms by (simp add: candidate_section_def find_end_position_greedy_def pattern_keys_def)

lemma starts_nonneg:
  assumes "find_start_position_all text keys wb fl = Inr starts" and "span \<in> set starts"
  shows "0 \<le> fst span"
  using assms
  by (auto simp: find_start_position_all_def Let_def split: option.splits sum.splits if_splits)

lemma extract_all_loop:
  "(extract_all self text = Inr secs \<longleftrightarrow>
      (\<exists>starts cands.
         find_start_position_all text (start_keys self) (word_boundary self) (flags self) = Inr starts
         \<and> map (candidate_section self text) starts = map Inr cands
         \<and> secs = filter (\<lambda>c. c \<noteq> []) cands))
   \<and> (extract_all self text = Inr secs \<longrightarrow> (\<forall>s\<in>set secs. s \<noteq> []))"
proof -
  have iff: "extract_all self text = Inr secs \<longleftrightarrow>
      (\<exists>starts cands.
         find_start_position_all text (start_keys self) (word_boundary self) (flags self) = Inr starts
         \<and> map (candidate_section self text) starts = map Inr cands
         \<and> secs = filter (\<lambda>c. c \<noteq> []) cands)" (is "?L \<longleftrightarrow> ?R")
  proof
    assume l: ?L
    then obtain starts
      where st: "find_start_position_all text (start_keys self) (word_boundary self) (flags self) = Inr starts"
      unfolding extract_all_def
      by (cases "find_start_position_all text (start_keys self) (word_boundary self) (flags self)") simp_all
    show ?R
    proof (cases "starts = []")
      case True
      with l st have "secs = []" unfolding extract_all_def by simp
      with st True have "map (candidate_section self text) starts = map Inr []
          \<and> secs = filter (\<lambda>c. c \<noteq> []) []" by simp
      with st show ?thesis by blast
    next
      case False
      with l st have "collect_sections self text starts [] = Inr secs"
        unfolding extract_all_def by simp
      from collect_sections_sound [OF this] st show ?thesis by auto
    qed
  next
    assume ?R
    then obtain starts cands
      where st: "find_start_position_all text (start_keys self) (word_boundary self) (flags self) = Inr starts"
        and c: "map (candidate_section self text) starts = map Inr cands"
        and s: "secs = filter (\<lambda>c. c \<noteq> []) cands"
      by blast
    show ?L
    proof (cases "starts = []")
      case True
      with c have "cands = []" by simp
      with s st True show ?thesis unfolding extract_all_def by simp
    next
      case False
      with st collect_sections_complete [OF c, of "[]"] s show ?thesis
        unfolding extract_all_def by simp
    qed
  qed
  moreover have "extract_all self text = Inr secs \<longrightarrow> (\<forall>s\<in>set secs. s \<noteq> [])"
  proof
    assume "extract_all self text = Inr secs"
    with iff obtain cands where "secs = filter (\<lambda>c. c \<noteq> []) cands" by blast
    then show "\<forall>s\<in>set secs. s \<noteq> []" by simp
  qed
  ultimately show ?thesis by blast
qed

lemma star_ends_shift:
  assumes f: "\<And>j. i0 \<le> j \<Longrightarrow> f j = map (\<lambda>e. e - n) (g (n + j))"
    and ge: "\<And>j e. e \<in> set (g j) \<Longrightarrow> j \<le> e"
  shows "i0 \<le> i \<Longrightarrow> star_ends f k i = map (\<lambda>e. e - n) (star_ends g k (n + i))"
proof (induction k arbitrary: i)
  case 0
  show ?case by simp
next
  case (Suc k)
  have eq: "map (\<lambda>e. if i < e then star_ends f k e else [i]) (map (\<lambda>e. e - n) (g (n + i)))
      = map (\<lambda>e. map (\<lambda>e. e - n) (if n + i < e then star_ends g k e else [n + i])) (g (n + i))"
    unfolding map_map
  proof (intro map_cong refl)
    fix e assume e: "e \<in> set (g (n + i))"
    then have le: "n + i \<le> e" by (rule ge)
    with Suc.prems have "i0 \<le> e - n" by simp
    then have "star_ends f k (e - n) = map (\<lambda>e. e - n) (star_ends g k (n + (e - n)))"
      by (rule Suc.IH)
    moreover from le have "n + (e - n) = e" by simp
    ultimately have "star_ends f k (e - n) = map (\<lambda>e. e - n) (star_ends g k e)" by simp
    moreover from le have "i < e - n \<longleftrightarrow> n + i < e" by auto
    ultimately show "((\<lambda>e. if i < e then star_ends f k e else [i]) \<circ> (\<lambda>e. e - n)) e
        = map (\<lambda>e. e - n) (if n + i < e then star_ends g k e else [n + i])"
      by simp
  qed
  have "star_ends f (Suc k) i
      = concat (map (\<lambda>e. if i < e then star_ends f k e else [i]) (f i)) @ [i]"
    by simp
  also have "\<dots> = concat (map (\<lambda>e. if i < e then star_ends f k e else [i])
                        (map (\<lambda>e. e - n) (g (n + i)))) @ [i]"
    by (simp only: f [OF Suc.prems])
  also have "\<dots> = concat (map (\<lambda>e. map (\<lambda>e. e - n) (if n + i < e then star_ends g k e else [n + i]))
                        (g (n + i))) @ [i]"
    by (simp only: eq)
  also have "\<dots> = map (\<lambda>e. e - n) (star_ends g (Suc k) (n + i))"
    by (simp add: map_concat comp_def)
  finally show ?case .
qed

lemma at_boundary_drop:
  assumes "0 < i"
  shows "at_boundary (drop n s) i = at_boundary s (n + i)"
proof (cases "n \<le> length s")
  case True
  from assms have 1: "n + i - 1 = n + (i - 1)" by simp
  from True assms show ?thesis
    unfolding at_boundary_def 1 by (auto simp: nth_drop)
next
  case False
  then show ?thesis unfolding at_boundary_def using assms by auto
qed

lemma ends_drop:
  "0 < i \<or> bnd_free r \<Longrightarrow> ends fl r (drop n s) i = map (\<lambda>e. e - n) (ends fl r s (n + i))"
proof (induction r arbitrary: i)
  case Eps
  show ?case by simp
next
  case (Lit c)
  show ?case by (cases "n \<le> length s") (auto simp: nth_drop)
next
  case (Cls pos cc)
  show ?case by (cases "n \<le> length s") (auto simp: nth_drop)
next
  case Bnd
  then have "0 < i" by simp
  then show ?case by (simp add: at_boundary_drop)
next
  case (Seq a b)
  from Seq.prems have pa: "0 < i \<or> bnd_free a" by auto
  have eq: "map (ends fl b (drop n s)) (map (\<lambda>e. e - n) (ends fl a s (n + i)))
      = map (\<lambda>e. map (\<lambda>e. e - n) (ends fl b s e)) (ends fl a s (n + i))"
    unfolding map_map
  proof (intro map_cong refl)
    fix e assume "e \<in> set (ends fl a s (n + i))"
    then have le: "n + i \<le> e" by (rule ends_ge)
    with Seq.prems have "0 < e - n \<or> bnd_free b" by auto
    then have "ends fl b (drop n s) (e - n) = map (\<lambda>e. e - n) (ends fl b s (n + (e - n)))"
      by (rule Seq.IH(2))
    moreover from le have "n + (e - n) = e" by simp
    ultimately show "(ends fl b (drop n s) \<circ> (\<lambda>e. e - n)) e = map (\<lambda>e. e - n) (ends fl b s e)"
      by simp
  qed
  have "ends fl (Seq a b) (drop n s) i
      = concat (map (ends fl b (drop n s)) (ends fl a (drop n s) i))"
    by simp
  also have "\<dots> = concat (map (ends fl b (drop n s)) (map (\<lambda>e. e - n) (ends fl a s (n + i))))"
    by (simp only: Seq.IH(1) [OF pa])
  also have "\<dots> = concat (map (\<lambda>e. map (\<lambda>e. e - n) (ends fl b s e)) (ends fl a s (n + i)))"
    by (simp only: eq)
  also have "\<dots> = map (\<lambda>e. e - n) (ends fl (Seq a b) s (n + i))"
    by (simp add: map_concat comp_def)
  finally show ?case .
next
  case (Alt a b)
  from Alt.prems have "0 < i \<or> bnd_free a" "0 < i \<or> bnd_free b" by auto
  then show ?case by (simp add: Alt.IH)
next
  case (Star a)
  have len: "Suc (length (drop n s) - i) = Suc (length s - (n + i))" by simp
  have "star_ends (ends fl a (drop n s)) (Suc (length s - (n + i))) i
      = map (\<lambda>e. e - n) (star_ends (ends fl a s) (Suc (length s - (n + i))) (n + i))"
  proof (rule star_ends_shift [where ?i0.0 = i])
    fix j assume "i \<le> j"
    with Star.prems have "0 < j \<or> bnd_free a" by auto
    then show "ends fl a (drop n s) j = map (\<lambda>e. e - n) (ends fl a s (n + j))"
      by (rule Star.IH)
  next
    fix j e assume "e \<in> set (ends fl a s j)"
    then show "j \<le> e" by (rule ends_ge)
  next
    show "i \<le> i" by simp
  qed
  then show ?case by (simp only: ends.simps len)
qed

lemma key_matches_at_drop:
  assumes "0 < i \<or> (\<not> wb \<and> bnd_free k)" and "n \<le> length s"
  shows "key_matches_at wb fl k (drop n s) i = key_matches_at wb fl k s (n + i)"
proof -
  define r where "r = (if wb then Seq Bnd (Seq k Bnd) else k)"
  from assms(1) have "0 < i \<or> bnd_free r" unfolding r_def by (cases wb) simp_all
  then have "ends fl r (drop n s) i = map (\<lambda>e. e - n) (ends fl r s (n + i))"
    by (rule ends_drop)
  then have e: "ends fl r (drop n s) i \<noteq> [] \<longleftrightarrow> ends fl r s (n + i) \<noteq> []"
    by (simp only: map_is_Nil_conv)
  from assms(2) have l: "i \<le> length (drop n s) \<longleftrightarrow> n + i \<le> length s" by auto
  have "key_matches_at wb fl k (drop n s) i
        = (i \<le> length (drop n s) \<and> ends fl r (drop n s) i \<noteq> [])"
    unfolding key_matches_at_def r_def ..
  also have "\<dots> = (n + i \<le> length s \<and> ends fl r s (n + i) \<noteq> [])"
    by (simp only: e l)
  also have "\<dots> = key_matches_at wb fl k s (n + i)"
    unfolding key_matches_at_def r_def ..
  finally show ?thesis .
qed

lemma strip_Nil [simp]: "strip [] = []"
  by (simp add: strip_def)

lemma strip_leading_blanks:
  assumes "\<forall>y\<in>set a. is_space y"
  shows "strip (a @ x) = strip x"
proof -
  from assms have "\<And>y. y \<in> set a \<Longrightarrow> is_space y" by simp
  then have "dropWhile is_space (a @ x) = dropWhile is_space x" by (rule dropWhile_append2)
  then show ?thesis by (simp only: strip_def)
qed

lemma strip_blank:
  assumes "strip x = []"
  shows "\<forall>y\<in>set x. is_space y"
proof -
  from strip_decomp [of x] obtain a b
    where x: "x = a @ strip x @ b" and a: "\<forall>y\<in>set a. is_space y" and b: "\<forall>y\<in>set b. is_space y"
    by blast
  from x assms have "x = a @ b" by simp
  then have "set x = set a \<union> set b" by (metis set_append)
  with a b show ?thesis by blast
qed

lemma strip_after_trimmed_marker:
  "take (length (strip m)) (strip (m @ rest)) = strip m
   \<and> strip (drop (length (strip m)) (strip (m @ rest))) = strip rest"
proof -
  from strip_decomp [of m] obtain a b
    where m: "m = a @ strip m @ b" and a: "\<forall>y\<in>set a. is_space y" and b: "\<forall>y\<in>set b. is_space y"
      and c: "strip m = [] \<or> (\<not> is_space (hd (strip m)) \<and> \<not> is_space (last (strip m)))"
    by blast
  from m have "m @ rest = a @ (strip m @ (b @ rest))" by (metis append_assoc)
  then have "strip (m @ rest) = strip (a @ (strip m @ (b @ rest)))" by (rule arg_cong)
  also from a have "\<dots> = strip (strip m @ (b @ rest))" by (rule strip_leading_blanks)
  finally have w: "strip (m @ rest) = strip (strip m @ (b @ rest))" .
  from b have r: "strip (b @ rest) = strip rest" by (rule strip_leading_blanks)
  from strip_after_marker [OF c, of "b @ rest"] show ?thesis
    unfolding w r .
qed

lemma stripped_with_blank_rest:
  assumes "take (length c) (strip p) = c" and "strip (drop (length c) (strip p)) = []"
  shows "strip p = c"
proof -
  let ?x = "drop (length c) (strip p)"
  have w: "strip p = take (length c) (strip p) @ ?x" by (rule append_take_drop_id [symmetric])
  from assms(2) have bl: "\<forall>y\<in>set ?x. is_space y" by (rule strip_blank)
  have "?x = []"
  proof (rule ccontr)
    assume ne: "?x \<noteq> []"
    then have "last ?x \<in> set ?x" by (rule last_in_set)
    with bl have sp: "is_space (last ?x)" by blast
    from ne w have "last (strip p) = last ?x" by (metis last_appendR)
    moreover from ne w have "strip p \<noteq> []" by (metis append_is_Nil_conv)
    moreover from strip_decomp [of p]
    have "strip p = [] \<or> (\<not> is_space (hd (strip p)) \<and> \<not> is_space (last (strip p)))" by blast
    ultimately show False using sp by simp
  qed
  with w assms(1) show ?thesis by simp
qed

lemma pattern_search_None_iff:
  assumes "ks \<noteq> []"
  shows "re_search (if wb then Seq Bnd (Seq (join_keys ks) Bnd) else join_keys ks, fl) s = None
         \<longleftrightarrow> (\<forall>i\<le>length s. \<forall>k\<in>set ks. \<not> key_matches_at wb fl k s i)"
proof -
  let ?r = "if wb then Seq Bnd (Seq (join_keys ks) Bnd) else join_keys ks"
  have "(\<forall>i\<le>length s. ends fl ?r s i = [])
        \<longleftrightarrow> (\<forall>i\<le>length s. \<forall>k\<in>set ks. \<not> key_matches_at wb fl k s i)"
  proof (intro iff_allI imp_cong refl)
    fix i assume "i \<le> length s"
    with pattern_matches_iff [OF assms, of i s fl wb]
    show "ends fl ?r s i = [] \<longleftrightarrow> (\<forall>k\<in>set ks. \<not> key_matches_at wb fl k s i)" by blast
  qed
  then show ?thesis unfolding re_search_None_iff .
qed

lemma key_matches_at_icase:
  assumes "key_matches_at wb fl k s i"
  shows "key_matches_at wb IGNORECASE k s i"
proof -
  define r where "r = (if wb then Seq Bnd (Seq k Bnd) else k)"
  from assms have i: "i \<le> length s" and e: "ends fl r s i \<noteq> []"
    unfolding key_matches_at_def r_def by blast+
  from e have "set (ends fl r s i) \<noteq> {}" by (simp only: set_empty not_False_eq_True)
  with ends_icase_mono [of fl r s i] have "set (ends IGNORECASE r s i) \<noteq> {}" by auto
  then have "ends IGNORECASE r s i \<noteq> []" by (simp only: set_empty not_False_eq_True)
  with i show ?thesis unfolding key_matches_at_def r_def by blast
qed

lemma key_matches_at_anchored:
  "key_matches_at True fl k s i \<Longrightarrow> key_matches_at wb fl k s i"
  by (cases wb) (simp_all add: raw_of_anchored)

lemma no_start_match_empty:
  assumes "start_keys self = Some ks" and "ks \<noteq> []"
  shows "((\<forall>i\<in>set [0..<Suc (length text)]. \<forall>k\<in>set ks.
             \<not> key_matches_at (word_boundary self) IGNORECASE k text i)
          \<longrightarrow> snd (extract self text) = Inr [] \<and> extract_all self text = Inr [])
       \<and> ((\<forall>i\<in>set [0..<Suc (length text)]. \<forall>k\<in>set ks.
               \<not> key_matches_at (word_boundary self) (flags self) k text i)
            \<longrightarrow> extract_all self text = Inr [])"
proof -
  have all: "extract_all self text = Inr []"
    if "\<forall>i\<in>set [0..<Suc (length text)]. \<forall>k\<in>set ks.
          \<not> key_matches_at (word_boundary self) (flags self) k text i"
  proof -
    from that have "\<forall>i\<le>length text. \<forall>k\<in>set ks.
        \<not> key_matches_at (word_boundary self) (flags self) k text i"
      by (simp only: ball_upt_Suc)
    then have "re_search (if word_boundary self then Seq Bnd (Seq (join_keys ks) Bnd)
                          else join_keys ks, flags self) text = None"
      by (simp only: pattern_search_None_iff [OF assms(2)])
    with assms
    have "find_start_position_all text (start_keys self) (word_boundary self) (flags self) = Inr []"
      by (simp add: find_start_position_all_def pattern_keys_Inr re_finditer_search)
    then show ?thesis by (simp add: extract_all_def)
  qed
  have first: "snd (extract self text) = Inr [] \<and> extract_all self text = Inr []"
    if h: "\<forall>i\<in>set [0..<Suc (length text)]. \<forall>k\<in>set ks.
          \<not> key_matches_at (word_boundary self) IGNORECASE k text i"
  proof
    from h have n: "\<forall>i\<le>length text. \<forall>k\<in>set ks.
        \<not> key_matches_at (word_boundary self) IGNORECASE k text i"
      by (simp only: ball_upt_Suc)
    have "\<forall>i\<le>length text. \<forall>k\<in>set ks. \<not> key_matches_at True IGNORECASE k text i"
    proof (intro allI impI ballI)
      fix i k assume "i \<le> length text" and "k \<in> set ks"
      with n have "\<not> key_matches_at (word_boundary self) IGNORECASE k text i" by blast
      then show "\<not> key_matches_at True IGNORECASE k text i"
        using key_matches_at_anchored by blast
    qed
    then have "re_search (if True then Seq Bnd (Seq (join_keys ks) Bnd) else join_keys ks, IGNORECASE)
                 text = None"
      by (simp only: pattern_search_None_iff [OF assms(2)])
    with assms
    have "snd (find_start_position text (start_keys self) True IGNORECASE) = Inr (- 1, - 1)"
      by (simp add: find_start_position_def pattern_keys_Inr Let_def)
    then show "snd (extract self text) = Inr []"
      by (cases "find_start_position text (start_keys self) True IGNORECASE")
        (simp add: extract_unfold)
    have "\<forall>i\<in>set [0..<Suc (length text)]. \<forall>k\<in>set ks.
          \<not> key_matches_at (word_boundary self) (flags self) k text i"
    proof (intro ballI)
      fix i k assume "i \<in> set [0..<Suc (length text)]" and "k \<in> set ks"
      with h have "\<not> key_matches_at (word_boundary self) IGNORECASE k text i" by blast
      then show "\<not> key_matches_at (word_boundary self) (flags self) k text i"
        using key_matches_at_icase by blast
    qed
    then show "extract_all self text = Inr []" by (rule all)
  qed
  from all first show ?thesis by blast
qed

lemma start_found_search:
  assumes "ks \<noteq> []"
  shows "start_found wb fl (Some ks) s
         \<longleftrightarrow> re_search (if wb then Seq Bnd (Seq (join_keys ks) Bnd) else join_keys ks, fl) s \<noteq> None"
proof -
  have "start_found wb fl (Some ks) s \<longleftrightarrow> \<not> (\<forall>i\<in>set [0..<Suc (length s)]. \<forall>k\<in>set ks. \<not> key_matches_at wb fl k s i)"
    unfolding start_found_def by simp
  also have "\<dots> \<longleftrightarrow> \<not> (\<forall>i\<le>length s. \<forall>k\<in>set ks. \<not> key_matches_at wb fl k s i)"
    by (simp only: ball_upt_Suc)
  finally show ?thesis unfolding pattern_search_None_iff [OF assms] .
qed

lemma end_position_raises_iff:
  "end_position self text sp wb fl = Inl err
   \<longleftrightarrow> err = EmptyKeys \<and> end_keys self = Some [] \<and> match_strategy self = ''greedy''"
proof
  assume a: "end_position self text sp wb fl = Inl err"
  from end_position_Inl [OF a] have e: "err = EmptyKeys" "end_keys self = Some []" by blast+
  from a sequential_no_error [of "text" "end_keys self" sp wb fl err]
  have "match_strategy self = ''greedy''" unfolding end_position_def by (auto split: if_splits)
  with e show "err = EmptyKeys \<and> end_keys self = Some [] \<and> match_strategy self = ''greedy''"
    by blast
next
  assume "err = EmptyKeys \<and> end_keys self = Some [] \<and> match_strategy self = ''greedy''"
  then show "end_position self text sp wb fl = Inl err"
    by (simp add: end_position_def find_end_position_greedy_def pattern_keys_def)
qed

lemma extract_raises_iff:
  "snd (extract self text) = Inl err
   \<longleftrightarrow> err = EmptyKeys
       \<and> (start_keys self = Some []
          \<or> (end_keys self = Some [] \<and> match_strategy self = ''greedy''
              \<and> start_found True IGNORECASE (start_keys self) text))"
proof (cases "start_keys self")
  case None
  then have f: "find_start_position text (start_keys self) True IGNORECASE = ([], Inr (0, 0))"
    by (simp add: find_start_position_def)
  have "snd (extract self text) = Inl err \<longleftrightarrow> end_position self text 0 True IGNORECASE = Inl err"
    unfolding extract_unfold f by (simp split: sum.splits)
  with None show ?thesis
    unfolding end_position_raises_iff by (simp add: start_found_def)
next
  case (Some ks)
  show ?thesis
  proof (cases "ks = []")
    case True
    with Some have "find_start_position text (start_keys self) True IGNORECASE = ([], Inl EmptyKeys)"
      by (simp add: find_start_position_def pattern_keys_def)
    then have "snd (extract self text) = Inl EmptyKeys" by (simp add: extract_unfold)
    with Some True show ?thesis by auto
  next
    case False
    let ?r = "if True then Seq Bnd (Seq (join_keys ks) Bnd) else join_keys ks"
    show ?thesis
    proof (cases "re_search (?r, IGNORECASE) text")
      case None
      with Some False obtain log
        where "find_start_position text (start_keys self) True IGNORECASE = (log, Inr (- 1, - 1))"
        by (simp add: find_start_position_def pattern_keys_Inr Let_def)
      then have "snd (extract self text) = Inr []" by (simp add: extract_unfold)
      moreover from None have "\<not> start_found True IGNORECASE (Some ks) text"
        unfolding start_found_search [OF False] by simp
      ultimately show ?thesis using Some False by simp
    next
      case found: (Some m)
      obtain s e where m: "m = (s, e)" by (cases m)
      from found m Some False obtain log
        where f: "find_start_position text (start_keys self) True IGNORECASE = (log, Inr (int s, int e))"
        by (simp add: find_start_position_def pattern_keys_Inr Let_def)
      have "int s \<noteq> - 1" by simp
      with f have "snd (extract self text) = Inl err
          \<longleftrightarrow> end_position self text (int s) True IGNORECASE = Inl err"
        unfolding extract_unfold by (simp split: sum.splits)
      moreover from found have "start_found True IGNORECASE (Some ks) text"
        unfolding start_found_search [OF False] by simp
      ultimately show ?thesis using Some False unfolding end_position_raises_iff by simp
    qed
  qed
qed

lemma candidate_section_raises_iff:
  "candidate_section self text span = Inl err
   \<longleftrightarrow> err = EmptyKeys \<and> end_keys self = Some [] \<and> match_strategy self = ''greedy''"
proof -
  have "candidate_section self text span = Inl err
        \<longleftrightarrow> end_position self text (fst span) (word_boundary self) (flags self) = Inl err"
    by (simp add: candidate_section_def end_position_def split: sum.splits)
  then show ?thesis unfolding end_position_raises_iff .
qed

lemma collect_sections_raises_iff:
  "collect_sections self text spans acc = Inl err
   \<longleftrightarrow> err = EmptyKeys \<and> spans \<noteq> [] \<and> end_keys self = Some [] \<and> match_strategy self = ''greedy''"
proof (induction spans arbitrary: acc)
  case Nil
  show ?case by simp
next
  case (Cons span spans)
  show ?case
  proof (cases "candidate_section self text span")
    case (Inl e)
    then have "collect_sections self text (span # spans) acc = Inl e"
      by (simp only: collect_sections_step sum.case)
    moreover from Inl have "e = EmptyKeys \<and> end_keys self = Some [] \<and> match_strategy self = ''greedy''"
      by (simp only: candidate_section_raises_iff)
    ultimately show ?thesis by auto
  next
    case (Inr c)
    then have n: "\<not> (end_keys self = Some [] \<and> match_strategy self = ''greedy'')"
      using candidate_section_raises [of self "text" span] by auto
    from Inr have "collect_sections self text (span # spans) acc
        = collect_sections self text spans (if c \<noteq> [] then acc @ [c] else acc)"
      by (simp only: collect_sections_step sum.case)
    with Cons.IH [of "if c \<noteq> [] then acc @ [c] else acc"] n show ?thesis by auto
  qed
qed

lemma extract_all_raises_iff:
  "extract_all self text = Inl err
   \<longleftrightarrow> err = EmptyKeys
       \<and> (start_keys self = Some []
          \<or> (end_keys self = Some [] \<and> match_strategy self = ''greedy''
              \<and> start_found (word_boundary self) (flags self) (start_keys self) text))"
proof (cases "start_keys self")
  case None
  then have e: "extract_all self text = collect_sections self text [(0, 0)] []"
    by (simp add: extract_all_def find_start_position_all_def del: collect_sections.simps)
  from None show ?thesis
    unfolding e collect_sections_raises_iff by (simp add: start_found_def)
next
  case (Some ks)
  show ?thesis
  proof (cases "ks = []")
    case True
    with Some have "extract_all self text = Inl EmptyKeys"
      by (simp add: extract_all_def find_start_position_all_def pattern_keys_def)
    with Some True show ?thesis by auto
  next
    case False
    let ?r = "if word_boundary self then Seq Bnd (Seq (join_keys ks) Bnd) else join_keys ks"
    show ?thesis
    proof (cases "re_search (?r, flags self) text")
      case None
      with Some False have "extract_all self text = Inr []"
        by (simp add: extract_all_def find_start_position_all_def pattern_keys_Inr
            re_finditer_search)
      moreover from None have "\<not> start_found (word_boundary self) (flags self) (Some ks) text"
        unfolding start_found_search [OF False] by simp
      ultimately show ?thesis using Some False by simp
    next
      case found: (Some m)
      obtain s e where m: "m = (s, e)" by (cases m)
      from found m Some False obtain starts
        where "find_start_position_all text (start_keys self) (word_boundary self) (flags self)
               = Inr starts" and "starts \<noteq> []"
        by (simp add: find_start_position_all_def pattern_keys_Inr re_finditer_search)
      then have e: "extract_all self text = collect_sections self text starts []"
        by (simp add: extract_all_def)
      from found have "start_found (word_boundary self) (flags self) (Some ks) text"
        unfolding start_found_search [OF False] by simp
      with Some False \<open>starts \<noteq> []\<close> show ?thesis
        unfolding e collect_sections_raises_iff by simp
    qed
  qed
qed

section \<open>The word-boundary option\<close>

text \<open>
  C1. Both \<open>extract\<close> and \<open>extract_all\<close> are to resolve their start and end markers
  with the extractor's own \<open>word_boundary\<close>; an extractor built with
  \<open>word_boundary = False\<close> is never to anchor a match during \<open>extract\<close>. The code of
  \<open>extract\<close> leaves the option out of its calls, so the finders anchor every match.
  The package's guide builds an extractor with start marker \<open>FINDING\<close>, end marker
  \<open>IMP\<close> and \<open>word_boundary = False\<close> to show the section ending inside
  \<open>IMPRESSION\<close>: \<open>extract_all\<close> ends it there, \<open>extract\<close> runs on to the end of
  the text. Likewise, on \<open>clinicalhistory: pain\<close> the extractor for the raw fragment
  \<open>history\<close> finds nothing with \<open>extract\<close>, while \<open>extract_all\<close> finds the
  section.
\<close>

theorem extract_anchors_despite_option:
  "(case SectionExtractor (Some [lit ''FINDING'']) (Some [lit ''IMP'']) True False IGNORECASE ''greedy'' of
      Inl err \<Rightarrow> False
    | Inr self \<Rightarrow>
        word_boundary self = False
        \<and> extract self guide_report = ([], Inr ''FINDING Normal\<newline>IMPRESSION Abnormal'')
        \<and> extract_all self guide_report = Inr [''FINDING Normal''])
   \<and> (case SectionExtractor (Some [lit ''history'']) None True False IGNORECASE ''greedy'' of
      Inl err \<Rightarrow> False
    | Inr self \<Rightarrow>
        word_boundary self = False
        \<and> extract self ''clinicalhistory: pain'' = ([], Inr [])
        \<and> extract_all self ''clinicalhistory: pain'' = Inr [''history: pain''])"
  by code_simp

section \<open>The greedy end finder\<close>

text \<open>
  C2, as the claim states it, for every non-null list of end markers and every offset
  \<open>start_pos\<close> within the text: the finder is to return the start of the earliest
  match after \<open>start_pos\<close> and the length of the text when no marker matches. Two
  inputs show that it fails. The empty list is non-null and no marker of it matches, and
  the finder raises instead of returning the length of the text. And for the single
  marker \<open>history\<close> with word boundaries, the text \<open>xhistory\<close> and
  \<open>start_pos = 1\<close>: on word boundaries the marker matches at no offset of the text
  (its only occurrence follows the letter \<open>x\<close>), yet the finder returns 1 and not
  the length 8, because it searches the remainder \<open>history\<close> as a text of its own,
  and that text begins on a word boundary.
\<close>

theorem greedy_end_counterexample:
  "find_end_position_greedy ''abc'' (Some []) 0 True IGNORECASE = Inl EmptyKeys
   \<and> find_end_position_greedy ''abc'' (Some []) 0 True IGNORECASE \<noteq> Inr (int (length ''abc''))
   \<and> find_end_position_greedy ''xhistory'' (Some [lit ''history'']) 1 True IGNORECASE = Inr 1
   \<and> filter (key_matches_at True IGNORECASE (lit ''history'') ''xhistory'') [0..<Suc (length ''xhistory'')] = []
   \<and> filter (key_matches_at False IGNORECASE (lit ''history'') ''xhistory'') [0..<Suc (length ''xhistory'')] = [1]
   \<and> int (length ''xhistory'') = 8"
  by code_simp

text \<open>
  C2, amended. Let \<open>0 \<le> start_pos \<le> len(text)\<close>. The finder returns the length
  of the text for the null list and raises the error of pattern compilation for the
  empty list. For a list with at least one marker a match is a match in the remainder
  \<open>drop (nat start_pos) text\<close>, taken as a text of its own: the finder returns the
  length of the text when no marker matches at any offset of the remainder, and
  \<open>start_pos + i\<close> for the least offset \<open>i\<close> of the remainder at which some marker
  matches, whichever marker that is; the result does not depend on the order (or
  repetition) of the markers in the list. A marker matches the remainder at offset
  \<open>i\<close> exactly when it matches the text at offset \<open>start_pos + i\<close>, provided
  \<open>0 < i\<close>, or \<open>start_pos = 0\<close>, or no word boundary is involved (none is asked
  for and the marker has no \<open>\b\<close>): the remainder and the text can differ only at
  the first offset of the remainder.
\<close>

theorem greedy_end_earliest_match:
  assumes "0 \<le> start_pos" and "start_pos \<le> int (length text)"
  shows "find_end_position_greedy text None start_pos wb fl = Inr (int (length text))
    \<and> find_end_position_greedy text (Some []) start_pos wb fl = Inl EmptyKeys
    \<and> (ks \<noteq> [] \<longrightarrow>
         ((\<forall>i\<in>set [0..<Suc (length (drop (nat start_pos) text))]. \<forall>k\<in>set ks.
             \<not> key_matches_at wb fl k (drop (nat start_pos) text) i)
          \<longrightarrow> find_end_position_greedy text (Some ks) start_pos wb fl = Inr (int (length text)))
       \<and> (\<forall>i. (\<exists>k\<in>set ks. key_matches_at wb fl k (drop (nat start_pos) text) i)
               \<and> (\<forall>j\<in>set [0..<i]. \<forall>k\<in>set ks.
                     \<not> key_matches_at wb fl k (drop (nat start_pos) text) j)
          \<longrightarrow> find_end_position_greedy text (Some ks) start_pos wb fl = Inr (start_pos + int i))
       \<and> (\<forall>ks'. set ks' = set ks
          \<longrightarrow> find_end_position_greedy text (Some ks') start_pos wb fl
              = find_end_position_greedy text (Some ks) start_pos wb fl))
    \<and> (\<forall>k i. 0 < i \<or> start_pos = 0 \<or> (\<not> wb \<and> bnd_free k)
          \<longrightarrow> key_matches_at wb fl k (drop (nat start_pos) text) i
              = key_matches_at wb fl k text (nat start_pos + i))"
proof (intro conjI allI impI)
  note sl = py_slice_from_drop [OF assms(1), of "text"]
  show "find_end_position_greedy text None start_pos wb fl = Inr (int (length text))"
    by (simp add: find_end_position_greedy_def)
  show "find_end_position_greedy text (Some []) start_pos wb fl = Inl EmptyKeys"
    by (simp add: find_end_position_greedy_def pattern_keys_def)
  {
    assume ne: "ks \<noteq> []"
      and "\<forall>i\<in>set [0..<Suc (length (drop (nat start_pos) text))]. \<forall>k\<in>set ks.
              \<not> key_matches_at wb fl k (drop (nat start_pos) text) i"
    then have "\<forall>i\<le>length (py_slice_from text start_pos). \<forall>k\<in>set ks.
                 \<not> key_matches_at wb fl k (py_slice_from text start_pos) i"
      unfolding sl by (simp only: ball_upt_Suc)
    with ne show "find_end_position_greedy text (Some ks) start_pos wb fl = Inr (int (length text))"
      by (rule greedy_no_match)
  }
  {
    fix i
    assume ne: "ks \<noteq> []"
      and a: "(\<exists>k\<in>set ks. key_matches_at wb fl k (drop (nat start_pos) text) i)
             \<and> (\<forall>j\<in>set [0..<i]. \<forall>k\<in>set ks.
                   \<not> key_matches_at wb fl k (drop (nat start_pos) text) j)"
    then have "\<exists>k\<in>set ks. key_matches_at wb fl k (py_slice_from text start_pos) i"
      and "\<forall>j<i. \<forall>k\<in>set ks. \<not> key_matches_at wb fl k (py_slice_from text start_pos) j"
      unfolding sl by (auto simp only: ball_upt)
    with ne show "find_end_position_greedy text (Some ks) start_pos wb fl = Inr (start_pos + int i)"
      by (rule greedy_first_match)
  }
  {
    fix ks' assume "ks \<noteq> []" and "set ks' = set ks"
    then show "find_end_position_greedy text (Some ks') start_pos wb fl
            = find_end_position_greedy text (Some ks) start_pos wb fl"
      by (rule greedy_set_eq)
  }
  {
    fix k and i :: nat
    assume a: "0 < i \<or> start_pos = 0 \<or> (\<not> wb \<and> bnd_free k)"
    show "key_matches_at wb fl k (drop (nat start_pos) text) i
              = key_matches_at wb fl k text (nat start_pos + i)"
    proof (cases "start_pos = 0")
      case True
      then show ?thesis by simp
    next
      case False
      with a have "0 < i \<or> (\<not> wb \<and> bnd_free k)" by simp
      moreover from assms have "nat start_pos \<le> length text" by simp
      ultimately show ?thesis by (rule key_matches_at_drop)
    qed
  }
qed

theorem greedy_end_earliest_match_witness:
  "find_end_position_greedy out_of_order_report (Some [lit ''technique'', lit ''impression''])
     10 True IGNORECASE = Inr 17
   \<and> drop 10 out_of_order_report = ''clear. Impression: normal. Technique: CT''
   \<and> key_matches_at True IGNORECASE (lit ''impression'') out_of_order_report 17"
proof -
  let ?ks = "[lit ''technique'', lit ''impression'']"
  have h: "(0::int) \<le> 10" "10 \<le> int (length out_of_order_report)" by code_simp+
  have ne: "?ks \<noteq> []" by simp
  have d: "drop 10 out_of_order_report = ''clear. Impression: normal. Technique: CT''"
    by code_simp
  have m: "(\<exists>k\<in>set ?ks. key_matches_at True IGNORECASE k (drop (nat 10) out_of_order_report) 7)
     \<and> (\<forall>j\<in>set [0..<7]. \<forall>k\<in>set ?ks.
           \<not> key_matches_at True IGNORECASE k (drop (nat 10) out_of_order_report) j)"
    by code_simp
  have m7: "key_matches_at True IGNORECASE (lit ''impression'') (drop (nat 10) out_of_order_report) 7"
    by code_simp
  note t = greedy_end_earliest_match [OF h, of True IGNORECASE ?ks]
  from t ne m
  have 1: "find_end_position_greedy out_of_order_report (Some ?ks) 10 True IGNORECASE = Inr (10 + int 7)"
    by blast
  have p: "(0::nat) < 7" by simp
  from t p have "key_matches_at True IGNORECASE (lit ''impression'') (drop (nat 10) out_of_order_report) 7
      = key_matches_at True IGNORECASE (lit ''impression'') out_of_order_report (nat 10 + 7)"
    by blast
  with m7 have 2: "key_matches_at True IGNORECASE (lit ''impression'') out_of_order_report 17"
    by simp
  from 1 d 2 show ?thesis by simp
qed

section \<open>The sequential end finder\<close>

text \<open>
  C3. The sequential finder searches the remainder \<open>text[start_pos:]\<close> (for an offset
  \<open>0 \<le> start_pos\<close>, the text from that offset on) for the markers in list order. It
  returns the length of the text for the null list and when no marker matches at any
  offset of the remainder. Otherwise, for the first marker of the list that matches
  somewhere, it returns \<open>start_pos + i\<close> with \<open>i\<close> the least offset at which that
  marker matches; the markers listed after it play no part. On the crafted report with
  end markers FINDINGS, IMPRESSION the greedy finder stops at IMPRESSION (offset 11) and
  the sequential one at FINDINGS (offset 25), and \<open>extract\<close> returns the sections cut
  there.
\<close>

theorem sequential_end_first_listed:
  "find_end_position_sequential text None start_pos wb fl = Inr (int (length text))
   \<and> (0 \<le> start_pos \<longrightarrow> py_slice_from text start_pos = drop (nat start_pos) text)
   \<and> ((\<forall>k\<in>set ks. \<forall>i\<in>set [0..<Suc (length (py_slice_from text start_pos))].
          \<not> key_matches_at wb fl k (py_slice_from text start_pos) i)
       \<longrightarrow> find_end_position_sequential text (Some ks) start_pos wb fl = Inr (int (length text)))
   \<and> (\<forall>pre k post i.
          (\<forall>k'\<in>set pre. \<forall>j\<in>set [0..<Suc (length (py_slice_from text start_pos))].
             \<not> key_matches_at wb fl k' (py_slice_from text start_pos) j)
          \<and> key_matches_at wb fl k (py_slice_from text start_pos) i
          \<and> (\<forall>j\<in>set [0..<i]. \<not> key_matches_at wb fl k (py_slice_from text start_pos) j)
       \<longrightarrow> find_end_position_sequential text (Some (pre @ k # post)) start_pos wb fl
           = Inr (start_pos + int i))
   \<and> find_end_position_greedy crafted_report (Some [lit ''FINDINGS'', lit ''IMPRESSION''])
        0 True IGNORECASE = Inr 11
   \<and> find_end_position_sequential crafted_report (Some [lit ''FINDINGS'', lit ''IMPRESSION''])
        0 True IGNORECASE = Inr 25
   \<and> extract (crafted_extractor ''greedy'') crafted_report = ([], Inr ''HISTORY: a'')
   \<and> extract (crafted_extractor ''sequential'') crafted_report
       = ([], Inr ''HISTORY: a\<newline>IMPRESSION: b'')"
proof (intro conjI allI impI)
  show "find_end_position_sequential text None start_pos wb fl = Inr (int (length text))"
    by (simp add: find_end_position_sequential_def)
  {
    assume "0 \<le> start_pos"
    then show "py_slice_from text start_pos = drop (nat start_pos) text"
      by (rule py_slice_from_drop)
  }
  {
    assume "\<forall>k\<in>set ks. \<forall>i\<in>set [0..<Suc (length (py_slice_from text start_pos))].
              \<not> key_matches_at wb fl k (py_slice_from text start_pos) i"
    then have "\<forall>k\<in>set ks. \<forall>i\<le>length (py_slice_from text start_pos).
                 \<not> key_matches_at wb fl k (py_slice_from text start_pos) i"
      by (simp only: ball_upt_Suc)
    then show "find_end_position_sequential text (Some ks) start_pos wb fl = Inr (int (length text))"
      by (rule sequential_no_match)
  }
  {
    fix pre k post i
    assume a: "(\<forall>k'\<in>set pre. \<forall>j\<in>set [0..<Suc (length (py_slice_from text start_pos))].
             \<not> key_matches_at wb fl k' (py_slice_from text start_pos) j)
          \<and> key_matches_at wb fl k (py_slice_from text start_pos) i
          \<and> (\<forall>j\<in>set [0..<i]. \<not> key_matches_at wb fl k (py_slice_from text start_pos) j)"
    then have "\<forall>k'\<in>set pre. \<forall>j\<le>length (py_slice_from text start_pos).
                 \<not> key_matches_at wb fl k' (py_slice_from text start_pos) j"
      and "key_matches_at wb fl k (py_slice_from text start_pos) i"
      and "\<forall>j<i. \<not> key_matches_at wb fl k (py_slice_from text start_pos) j"
      by (auto simp only: ball_upt less_Suc_eq_le)
    then show "find_end_position_sequential text (Some (pre @ k # post)) start_pos wb fl
           = Inr (start_pos + int i)"
      by (rule sequential_first_key)
  }
  show "find_end_position_greedy crafted_report (Some [lit ''FINDINGS'', lit ''IMPRESSION''])
        0 True IGNORECASE = Inr 11"
    by code_simp
  show "find_end_position_sequential crafted_report (Some [lit ''FINDINGS'', lit ''IMPRESSION''])
        0 True IGNORECASE = Inr 25"
    by code_simp
  show "extract (crafted_extractor ''greedy'') crafted_report = ([], Inr ''HISTORY: a'')"
    by code_simp
  show "extract (crafted_extractor ''sequential'') crafted_report
       = ([], Inr ''HISTORY: a\<newline>IMPRESSION: b'')"
    by code_simp
qed

theorem sequential_end_first_listed_witness:
  "find_end_position_sequential out_of_order_report
     (Some [lit ''comparison'', lit ''technique'', lit ''impression'']) 0 True IGNORECASE = Inr 37"
proof -
  let ?s = "py_slice_from out_of_order_report 0"
  have m: "(\<forall>k'\<in>set [lit ''comparison'']. \<forall>j\<in>set [0..<Suc (length ?s)].
             \<not> key_matches_at True IGNORECASE k' ?s j)
          \<and> key_matches_at True IGNORECASE (lit ''technique'') ?s 37
          \<and> (\<forall>j\<in>set [0..<37]. \<not> key_matches_at True IGNORECASE (lit ''technique'') ?s j)"
    by code_simp
  from sequential_end_first_listed [of out_of_order_report 0 True IGNORECASE] m
  have "find_end_position_sequential out_of_order_report
          (Some ([lit ''comparison''] @ lit ''technique'' # [lit ''impression''])) 0 True IGNORECASE
        = Inr (0 + int 37)"
    by blast
  then show ?thesis by simp
qed

section \<open>All occurrences of a section\<close>

text \<open>
  C4. \<open>extract_all\<close> returns, in order, the sections expected for the spans that
  \<open>find_start_position_all\<close> finds, without the empty ones. The section expected for
  a span (\<open>expected_section\<close>) is resolved for that span alone: its end
  (\<open>section_end\<close>) is where the end markers match in the remainder of the text from the
  span's own start offset, at the least offset of any marker under the greedy strategy
  and at the least offset of the first listed marker that matches under the sequential
  one, and it is the end of the text when the list is null or nothing matches. The end
  does not depend on the other spans, so sections may overlap or lie inside one another,
  and none is merged. The text from the start of the span (from its end, when the marker
  is left out) up to that end is trimmed. The call returns exactly when the start spans
  are found and, if there is one, the end markers are not the empty list under the
  greedy strategy; and no string it returns is empty.
\<close>

theorem extract_all_candidates:
  "(extract_all self text = Inr secs \<longleftrightarrow>
      (\<exists>starts.
         find_start_position_all text (start_keys self) (word_boundary self) (flags self) = Inr starts
         \<and> (starts = [] \<or> end_keys self \<noteq> Some [] \<or> match_strategy self \<noteq> ''greedy'')
         \<and> secs = filter (\<lambda>c. c \<noteq> []) (map (expected_section self text) starts)))
   \<and> (extract_all self text = Inr secs \<longrightarrow> (\<forall>s\<in>set secs. s \<noteq> []))"
proof -
  let ?fs = "find_start_position_all text (start_keys self) (word_boundary self) (flags self)"
  note loop = extract_all_loop [of self "text" secs, THEN conjunct1]
  have iff: "extract_all self text = Inr secs \<longleftrightarrow>
      (\<exists>starts. ?fs = Inr starts
         \<and> (starts = [] \<or> end_keys self \<noteq> Some [] \<or> match_strategy self \<noteq> ''greedy'')
         \<and> secs = filter (\<lambda>c. c \<noteq> []) (map (expected_section self text) starts))"
    (is "?L \<longleftrightarrow> ?R")
  proof
    assume ?L
    with loop obtain starts cands where st: "?fs = Inr starts"
      and c: "map (candidate_section self text) starts = map Inr cands"
      and s: "secs = filter (\<lambda>c. c \<noteq> []) cands"
      by blast
    show ?R
    proof (cases "starts = [] \<or> end_keys self \<noteq> Some [] \<or> match_strategy self \<noteq> ''greedy''")
      case False
      then obtain span rest where sp: "starts = span # rest"
        and e: "end_keys self = Some []" "match_strategy self = ''greedy''"
        by (cases starts) auto
      from candidate_section_raises [OF e, of "text" span] c sp show ?thesis
        by (cases cands) simp_all
    next
      case True
      have "map Inr cands
            = (map Inr (map (expected_section self text) starts) :: (error + string) list)"
      proof (cases "starts = []")
        case True
        with c show ?thesis by simp
      next
        case ne: False
        with True have k: "end_keys self \<noteq> Some [] \<or> match_strategy self \<noteq> ''greedy''" by simp
        have "map (candidate_section self text) starts
              = map (\<lambda>span. Inr (expected_section self text span)) starts"
        proof (intro map_cong refl)
          fix span assume "span \<in> set starts"
          with st have "0 \<le> fst span" by (rule starts_nonneg)
          with k show "candidate_section self text span = Inr (expected_section self text span)"
            by (rule candidate_section_spec)
        qed
        then have "map (candidate_section self text) starts
              = map Inr (map (expected_section self text) starts)"
          by (simp only: map_map comp_def)
        with c show ?thesis by (rule trans [OF sym])
      qed
      then have "cands = map (expected_section self text) starts"
        by (simp only: inj_map_eq_map [OF inj_Inr])
      with st s True show ?thesis by blast
    qed
  next
    assume ?R
    then obtain starts where st: "?fs = Inr starts"
      and k: "starts = [] \<or> end_keys self \<noteq> Some [] \<or> match_strategy self \<noteq> ''greedy''"
      and s: "secs = filter (\<lambda>c. c \<noteq> []) (map (expected_section self text) starts)"
      by blast
    have "map (candidate_section self text) starts
          = map Inr (map (expected_section self text) starts)"
    proof (cases "starts = []")
      case True
      then show ?thesis by simp
    next
      case False
      with k have k': "end_keys self \<noteq> Some [] \<or> match_strategy self \<noteq> ''greedy''" by simp
      have "map (candidate_section self text) starts
            = map (\<lambda>span. Inr (expected_section self text span)) starts"
      proof (intro map_cong refl)
        fix span assume "span \<in> set starts"
        with st have "0 \<le> fst span" by (rule starts_nonneg)
        with k' show "candidate_section self text span = Inr (expected_section self text span)"
          by (rule candidate_section_spec)
      qed
      then show ?thesis by (simp only: map_map comp_def)
    qed
    with st s loop show ?L by blast
  qed
  moreover have "extract_all self text = Inr secs \<longrightarrow> (\<forall>s\<in>set secs. s \<noteq> [])"
  proof
    assume "extract_all self text = Inr secs"
    with iff obtain starts
      where "secs = filter (\<lambda>c. c \<noteq> []) (map (expected_section self text) starts)"
      by blast
    then show "\<forall>s\<in>set secs. s \<noteq> []" by simp
  qed
  ultimately show ?thesis by blast
qed

theorem extract_all_candidates_witness:
  "find_start_position_all nested_text (start_keys (nested_extractor ''sequential''))
      (word_boundary (nested_extractor ''sequential'')) (flags (nested_extractor ''sequential''))
     = Inr [(0, 2), (10, 12), (17, 19)]
   \<and> map (section_end (nested_extractor ''sequential'') nested_text) [0, 10, 17] = [3, 26, 26]
   \<and> map (expected_section (nested_extractor ''sequential'') nested_text) [(0, 2), (10, 12), (17, 19)]
     = [[], ''two Q: three'', ''three'']
   \<and> extract_all (nested_extractor ''sequential'') nested_text = Inr [''two Q: three'', ''three'']
   \<and> extract_all (nested_extractor ''greedy'') nested_text = Inr [''two Q: three'', ''three'']
   \<and> extract_all chat_extractor chat_text = Inr ['': Hi'', '': Bye'']"
proof -
  let ?x = "nested_extractor ''sequential''"
  let ?g = "nested_extractor ''greedy''"
  let ?c = "chat_extractor"
  have st: "find_start_position_all nested_text (start_keys ?x) (word_boundary ?x) (flags ?x)
     = Inr [(0, 2), (10, 12), (17, 19)]"
    by code_simp
  have stg: "find_start_position_all nested_text (start_keys ?g) (word_boundary ?g) (flags ?g)
     = Inr [(0, 2), (10, 12), (17, 19)]"
    by code_simp
  have stc: "find_start_position_all chat_text (start_keys ?c) (word_boundary ?c) (flags ?c)
     = Inr [(0, 5), (20, 25)]"
    by code_simp
  have en: "map (section_end ?x nested_text) [0, 10, 17] = [3, 26, 26]" by code_simp
  have ex: "map (expected_section ?x nested_text) [(0, 2), (10, 12), (17, 19)]
     = [[], ''two Q: three'', ''three'']"
    by code_simp
  have exg: "map (expected_section ?g nested_text) [(0, 2), (10, 12), (17, 19)]
     = [[], ''two Q: three'', ''three'']"
    by code_simp
  have exc: "map (expected_section ?c chat_text) [(0, 5), (20, 25)] = ['': Hi'', '': Bye'']"
    by code_simp
  have k: "end_keys ?x \<noteq> Some []" "end_keys ?g \<noteq> Some []" "end_keys ?c \<noteq> Some []"
    by (simp_all add: nested_extractor_def chat_extractor_def)
  have f: "[''two Q: three'', ''three''] = filter (\<lambda>c. c \<noteq> []) [[], ''two Q: three'', ''three'']"
    "['': Hi'', '': Bye''] = filter (\<lambda>c. c \<noteq> []) ['': Hi'', '': Bye'']"
    by simp_all
  have 1: "extract_all ?x nested_text = Inr [''two Q: three'', ''three'']"
  proof (rule extract_all_candidates [THEN conjunct1, THEN iffD2], rule exI, intro conjI)
    show "find_start_position_all nested_text (start_keys ?x) (word_boundary ?x) (flags ?x)
      = Inr [(0, 2), (10, 12), (17, 19)]" by (rule st)
    show "[(0, 2), (10, 12), (17, 19)] = [] \<or> end_keys ?x \<noteq> Some [] \<or> match_strategy ?x \<noteq> ''greedy''"
      by (intro disjI2 disjI1) (rule k)
    show "[''two Q: three'', ''three'']
      = filter (\<lambda>c. c \<noteq> []) (map (expected_section ?x nested_text) [(0, 2), (10, 12), (17, 19)])"
      unfolding ex by (rule f)
  qed
  have 2: "extract_all ?g nested_text = Inr [''two Q: three'', ''three'']"
  proof (rule extract_all_candidates [THEN conjunct1, THEN iffD2], rule exI, intro conjI)
    show "find_start_position_all nested_text (start_keys ?g) (word_boundary ?g) (flags ?g)
      = Inr [(0, 2), (10, 12), (17, 19)]" by (rule stg)
    show "[(0, 2), (10, 12), (17, 19)] = [] \<or> end_keys ?g \<noteq> Some [] \<or> match_strategy ?g \<noteq> ''greedy''"
      by (intro disjI2 disjI1) (rule k)
    show "[''two Q: three'', ''three'']
      = filter (\<lambda>c. c \<noteq> []) (map (expected_section ?g nested_text) [(0, 2), (10, 12), (17, 19)])"
      unfolding exg by (rule f)
  qed
  have 3: "extract_all ?c chat_text = Inr ['': Hi'', '': Bye'']"
  proof (rule extract_all_candidates [THEN conjunct1, THEN iffD2], rule exI, intro conjI)
    show "find_start_position_all chat_text (start_keys ?c) (word_boundary ?c) (flags ?c)
      = Inr [(0, 5), (20, 25)]" by (rule stc)
    show "[(0, 5), (20, 25)] = [] \<or> end_keys ?c \<noteq> Some [] \<or> match_strategy ?c \<noteq> ''greedy''"
      by (intro disjI2 disjI1) (rule k)
    show "['': Hi'', '': Bye'']
      = filter (\<lambda>c. c \<noteq> []) (map (expected_section ?c chat_text) [(0, 5), (20, 25)])"
      unfolding exc by (rule f)
  qed
  show ?thesis by (intro conjI) (rule st en ex 1 2 3)+
qed

section \<open>Leaving the start marker out\<close>

text \<open>
  C5, as the claim states it: whenever a start marker matches, \<open>extract\<close> without
  the marker equals \<open>extract\<close> with the marker, once the marker's text is taken off
  its front and the rest trimmed again. The end of a section is searched from the start
  of the marker's match, so an end marker may match inside the start marker. On
  \<open>Clinical history: pain\<close> with the start marker \<open>clinical history\<close> and the end
  marker \<open>history\<close> the start marker matches up to offset 16 and the end is resolved
  at offset 9: the section with the marker is \<open>Clinical\<close>, which does not begin with
  the marker's text, so that nothing is taken off it, and the section without the marker
  is empty.
\<close>

theorem marker_stripping_counterexample:
  "find_start_position ''Clinical history: pain'' (start_keys (clinical_extractor True)) True IGNORECASE
     = ([], Inr (0, 16))
   \<and> end_position (clinical_extractor True) ''Clinical history: pain'' 0 True IGNORECASE = Inr 9
   \<and> strip (py_slice ''Clinical history: pain'' 0 16) = ''Clinical history''
   \<and> extract (clinical_extractor True) ''Clinical history: pain'' = ([], Inr ''Clinical'')
   \<and> extract (clinical_extractor False) ''Clinical history: pain'' = ([], Inr [])
   \<and> take (length ''Clinical history'') ''Clinical'' \<noteq> ''Clinical history''
   \<and> strip (remove_marker ''Clinical history'' ''Clinical'') = ''Clinical''"
  by code_simp

text \<open>
  C5, amended. Let the start marker match at the span \<open>(s, e)\<close> and let the end of
  the section be resolved at \<open>end_idx\<close>. The marker's text is \<open>text[s:e]\<close>
  trimmed, which is how it stands at the front of a trimmed section. Then the following
  holds if and only if the end is resolved at or after \<open>e\<close>, or the section with the
  marker is the marker's text alone: \<open>extract\<close> with the marker returns a string that
  begins with the marker's text, and \<open>extract\<close> without the marker returns that
  string with the marker's text taken off its front and the rest trimmed again.
\<close>

theorem marker_stripping_iff_section_follows:
  assumes "find_start_position text (start_keys self) True IGNORECASE = (log, Inr (s, e))"
    and "s \<noteq> - 1"
    and "end_position self text s True IGNORECASE = Inr end_idx"
  shows "\<exists>with_marker without_marker.
           extract (self\<lparr>include_start_keys := True\<rparr>) text = (log, Inr with_marker)
           \<and> extract (self\<lparr>include_start_keys := False\<rparr>) text = (log, Inr without_marker)
           \<and> ((take (length (strip (py_slice text s e))) with_marker = strip (py_slice text s e)
                \<and> without_marker = strip (remove_marker (strip (py_slice text s e)) with_marker))
               \<longleftrightarrow> (e \<le> end_idx \<or> with_marker = strip (py_slice text s e)))"
proof -
  note sp = find_start_position_span [OF assms(1,2)]
  from sp have sn: "s \<le> int (length text)" by simp
  from end_position_range [OF assms(3) sp(1) sn]
  have en: "s \<le> end_idx" "end_idx \<le> int (length text)" .
  define a b c where "a = nat s" and "b = nat e" and "c = nat end_idx"
  from sp en have i: "s = int a" "e = int b" "end_idx = int c"
    and o: "a \<le> b" "a \<le> c" "b \<le> length text" "c \<le> length text"
    unfolding a_def b_def c_def by simp_all
  define m where "m = py_slice text s e"
  define W where "W = strip (py_slice text s end_idx)"
  define N where "N = strip (py_slice text e end_idx)"
  from assms(1,2,3)
  have 1: "extract (self\<lparr>include_start_keys := True\<rparr>) text = (log, Inr W)"
    unfolding W_def by (simp add: extract_unfold)
  from assms(1,2,3)
  have 2: "extract (self\<lparr>include_start_keys := False\<rparr>) text = (log, Inr N)"
    unfolding N_def by (simp add: extract_unfold)
  have 3: "(take (length (strip m)) W = strip m \<and> N = strip (remove_marker (strip m) W))
           \<longleftrightarrow> (e \<le> end_idx \<or> W = strip m)"
  proof (cases "e \<le> end_idx")
    case True
    with i have bc: "b \<le> c" by simp
    let ?rest = "take (c - b) (drop b text)"
    from o have mm: "m = take (b - a) (drop a text)"
      unfolding m_def i by (intro slice_nat) simp_all
    from o have r: "py_slice text e end_idx = ?rest" unfolding i by (intro slice_nat) simp_all
    from o have "py_slice text s end_idx = take (c - a) (drop a text)"
      unfolding i by (intro slice_nat) simp_all
    also from o bc have "\<dots> = take (b - a) (drop a text) @ ?rest" by (intro slice_append) simp_all
    finally have w: "py_slice text s end_idx = m @ ?rest" unfolding mm .
    from strip_after_trimmed_marker [of m ?rest]
    have t: "take (length (strip m)) W = strip m"
      and d: "strip (drop (length (strip m)) W) = N"
      unfolding W_def N_def w r by blast+
    from t have "remove_marker (strip m) W = drop (length (strip m)) W"
      unfolding remove_marker_def by (rule if_P)
    with d have "N = strip (remove_marker (strip m) W)" by simp
    with t True show ?thesis by blast
  next
    case False
    with i have cb: "c < b" by simp
    from o have "py_slice text e end_idx = take (c - b) (drop b text)"
      unfolding i by (intro slice_nat) simp_all
    with cb have n: "N = []" unfolding N_def by simp
    show ?thesis
    proof
      assume l: "take (length (strip m)) W = strip m \<and> N = strip (remove_marker (strip m) W)"
      then have t: "take (length (strip m)) W = strip m" by blast
      then have "remove_marker (strip m) W = drop (length (strip m)) W"
        unfolding remove_marker_def by (rule if_P)
      with l n have "strip (drop (length (strip m)) W) = []" by simp
      with t have "W = strip m" unfolding W_def by (rule stripped_with_blank_rest)
      then show "e \<le> end_idx \<or> W = strip m" by blast
    next
      assume "e \<le> end_idx \<or> W = strip m"
      with False have w: "W = strip m" by blast
      then have "take (length (strip m)) W = strip m" by simp
      moreover from w have "remove_marker (strip m) W = []" unfolding remove_marker_def by simp
      ultimately show "take (length (strip m)) W = strip m \<and> N = strip (remove_marker (strip m) W)"
        using n by simp
    qed
  qed
  from 1 2 3 show ?thesis unfolding m_def by blast
qed

theorem marker_stripping_iff_section_follows_witness:
  "find_start_position padded_report (start_keys (padded_extractor True)) True IGNORECASE
     = ([], Inr (4, 15))
   \<and> py_slice padded_report 4 15 = ''\<newline>\<newline>History: ''
   \<and> strip (py_slice padded_report 4 15) = ''History:''
   \<and> extract (padded_extractor True) padded_report = ([], Inr ''History: pain'')
   \<and> extract (padded_extractor False) padded_report
       = ([], Inr (strip (remove_marker ''History:'' ''History: pain'')))
   \<and> strip (remove_marker ''History:'' ''History: pain'') = ''pain''"
proof -
  let ?x = "padded_extractor True"
  have f: "find_start_position padded_report (start_keys ?x) True IGNORECASE = ([], Inr (4, 15))"
    by code_simp
  have n: "(4::int) \<noteq> - 1" by simp
  have e: "end_position ?x padded_report 4 True IGNORECASE = Inr 19" by code_simp
  have l: "(15::int) \<le> 19" by simp
  have p: "py_slice padded_report 4 15 = ''\<newline>\<newline>History: ''" by code_simp
  have m: "strip (py_slice padded_report 4 15) = ''History:''" by code_simp
  have w: "extract ?x padded_report = ([], Inr ''History: pain'')" by code_simp
  have v: "strip (remove_marker ''History:'' ''History: pain'') = ''pain''" by code_simp
  have u: "?x\<lparr>include_start_keys := True\<rparr> = ?x"
    "?x\<lparr>include_start_keys := False\<rparr> = padded_extractor False"
    by (simp_all add: padded_extractor_def)
  from marker_stripping_iff_section_follows [OF f n e] l
  obtain W N where "extract ?x padded_report = ([], Inr W)"
    and "extract (padded_extractor False) padded_report = ([], Inr N)"
    and "N = strip (remove_marker (strip (py_slice padded_report 4 15)) W)"
    unfolding u by blast
  with w have "extract (padded_extractor False) padded_report
       = ([], Inr (strip (remove_marker ''History:'' ''History: pain'')))"
    unfolding m by simp
  with f p m w v show ?thesis by blast
qed

section \<open>Null marker lists\<close>

text \<open>
  C6. With \<open>start_keys = None\<close> the start span is \<open>(0, 0)\<close> and \<open>extract\<close> returns
  the text from offset 0 up to the resolved end, trimmed. With \<open>end_keys = None\<close> and a
  start marker found, \<open>extract\<close> returns the text from the section's start to the end
  of the text, trimmed. With both lists null it returns the whole text, trimmed.
\<close>

theorem null_markers_reach_text_ends:
  "(start_keys self = None \<longrightarrow>
      find_start_position text (start_keys self) True IGNORECASE = ([], Inr (0, 0))
      \<and> (\<forall>end_idx. end_position self text 0 True IGNORECASE = Inr end_idx
            \<longrightarrow> extract self text = ([], Inr (strip (take (nat end_idx) text)))))
   \<and> (end_keys self = None \<longrightarrow>
        (\<forall>log s e. find_start_position text (start_keys self) True IGNORECASE = (log, Inr (s, e))
              \<and> s \<noteq> - 1
            \<longrightarrow> extract self text
                = (log, Inr (strip (drop (nat (if include_start_keys self then s else e)) text)))))
   \<and> (start_keys self = None \<and> end_keys self = None \<longrightarrow> extract self text = ([], Inr (strip text)))"
proof (intro conjI impI allI)
  assume n: "start_keys self = None"
  then show f: "find_start_position text (start_keys self) True IGNORECASE = ([], Inr (0, 0))"
    by (simp add: find_start_position_def)
  fix end_idx
  assume e: "end_position self text 0 True IGNORECASE = Inr end_idx"
  from end_position_range(1) [OF e] have "0 \<le> end_idx" by simp
  then have "py_slice text 0 end_idx = take (nat end_idx) text" by (rule py_slice_take)
  with f e show "extract self text = ([], Inr (strip (take (nat end_idx) text)))"
    by (simp add: extract_unfold)
next
  fix log s e
  assume n: "end_keys self = None"
    and a: "find_start_position text (start_keys self) True IGNORECASE = (log, Inr (s, e)) \<and> s \<noteq> - 1"
  from a find_start_position_span [of "text" "start_keys self" True IGNORECASE log s e]
  have "0 \<le> s" "s \<le> e" by simp_all
  then have "0 \<le> (if include_start_keys self then s else e)" by simp
  then have "py_slice text (if include_start_keys self then s else e) (int (length text))
               = drop (nat (if include_start_keys self then s else e)) text"
    by (rule py_slice_drop)
  moreover from n have "end_position self text s True IGNORECASE = Inr (int (length text))"
    by (simp add: end_position_def find_end_position_greedy_def find_end_position_sequential_def)
  ultimately show "extract self text
         = (log, Inr (strip (drop (nat (if include_start_keys self then s else e)) text)))"
    using a by (simp add: extract_unfold)
next
  assume "start_keys self = None \<and> end_keys self = None"
  then show "extract self text = ([], Inr (strip text))"
    by (simp add: extract_unfold find_start_position_def end_position_def
        find_end_position_greedy_def find_end_position_sequential_def py_slice_def clamp_index_def)
qed

theorem null_markers_reach_text_ends_witness:
  "extract (open_extractor None (Some [lit ''History''])) title_report = ([], Inr ''CT CHEST'')
   \<and> extract (open_extractor (Some [lit ''History'']) None) title_report
       = ([], Inr ''History: cough'')
   \<and> extract (open_extractor None None) title_report
       = ([], Inr ''CT CHEST\<newline>\<newline>History: cough'')"
proof -
  let ?a = "open_extractor None (Some [lit ''History''])"
  let ?b = "open_extractor (Some [lit ''History'']) None"
  let ?c = "open_extractor None None"
  have a: "start_keys ?a = None" "end_position ?a title_report 0 True IGNORECASE = Inr 11"
    by code_simp+
  have b: "end_keys ?b = None"
    "find_start_position title_report (start_keys ?b) True IGNORECASE = ([], Inr (11, 18)) \<and> (11::int) \<noteq> - 1"
    by code_simp+
  have c: "start_keys ?c = None \<and> end_keys ?c = None" by code_simp
  have v: "strip (take (nat 11) title_report) = ''CT CHEST''"
    "strip (drop (nat (if include_start_keys ?b then 11 else 18)) title_report) = ''History: cough''"
    "strip title_report = ''CT CHEST\<newline>\<newline>History: cough''"
    by code_simp+
  from null_markers_reach_text_ends [of ?a title_report] a
  have 1: "extract ?a title_report = ([], Inr (strip (take (nat 11) title_report)))" by blast
  from null_markers_reach_text_ends [of ?b title_report] b
  have 2: "extract ?b title_report
     = ([], Inr (strip (drop (nat (if include_start_keys ?b then 11 else 18)) title_report)))"
    by blast
  from null_markers_reach_text_ends [of ?c title_report] c
  have 3: "extract ?c title_report = ([], Inr (strip title_report))" by blast
  from 1 2 3 show ?thesis unfolding v by simp
qed

section \<open>No start marker in the text\<close>

text \<open>
  C7, as the claim states it, for every non-null list of start markers: no marker of the
  empty list matches, and both \<open>extract\<close> and \<open>extract_all\<close> raise the error of
  pattern compilation instead of returning an empty result. And matching under the
  extractor's options is not enough for \<open>extract\<close>, which always ignores the case
  of the letters: for an extractor that is set to respect it, the marker
  \<open>history\<close> matches nowhere in \<open>HISTORY: pain\<close> and \<open>extract_all\<close>
  returns the empty list, yet \<open>extract\<close> returns the section.
\<close>

theorem empty_start_list_counterexample:
  "extract no_keys_extractor ''FINDINGS: clear'' = ([], Inl EmptyKeys)
   \<and> extract_all no_keys_extractor ''FINDINGS: clear'' = Inl EmptyKeys
   \<and> filter (key_matches_at False NOFLAG (lit ''history'') ''HISTORY: pain'')
         [0..<Suc (length ''HISTORY: pain'')] = []
   \<and> extract_all ((history_extractor False)\<lparr>flags := NOFLAG\<rparr>) ''HISTORY: pain'' = Inr []
   \<and> extract ((history_extractor False)\<lparr>flags := NOFLAG\<rparr>) ''HISTORY: pain''
       = ([], Inr ''HISTORY: pain'')"
  by code_simp

text \<open>
  C7, amended. For the empty list of start markers both \<open>extract\<close> and
  \<open>extract_all\<close> raise the error of pattern compilation. For a list with at least
  one marker: when no marker of the list matches at any offset of the text under the
  extractor's \<open>word_boundary\<close> option, whatever the case of the letters,
  \<open>extract\<close> returns the empty string and \<open>extract_all\<close> returns the empty list,
  and neither raises; and \<open>extract_all\<close> returns the empty list as soon as no marker
  matches under the extractor's \<open>word_boundary\<close> option and its own \<open>flags\<close>.
\<close>

theorem no_start_match_gives_empty:
  "(start_keys self = Some []
      \<longrightarrow> snd (extract self text) = Inl EmptyKeys \<and> extract_all self text = Inl EmptyKeys)
   \<and> (\<forall>ks. start_keys self = Some ks \<and> ks \<noteq> [] \<longrightarrow>
         ((\<forall>i\<in>set [0..<Suc (length text)]. \<forall>k\<in>set ks.
              \<not> key_matches_at (word_boundary self) IGNORECASE k text i)
           \<longrightarrow> snd (extract self text) = Inr [] \<and> extract_all self text = Inr [])
         \<and> ((\<forall>i\<in>set [0..<Suc (length text)]. \<forall>k\<in>set ks.
                \<not> key_matches_at (word_boundary self) (flags self) k text i)
             \<longrightarrow> extract_all self text = Inr []))"
proof (intro conjI allI impI)
  {
    assume e: "start_keys self = Some []"
    then show "snd (extract self text) = Inl EmptyKeys" by (simp add: extract_raises_iff)
    from e show "extract_all self text = Inl EmptyKeys" by (simp add: extract_all_raises_iff)
  }
  {
    fix ks
    assume k: "start_keys self = Some ks \<and> ks \<noteq> []"
      and h: "\<forall>i\<in>set [0..<Suc (length text)]. \<forall>k\<in>set ks.
                \<not> key_matches_at (word_boundary self) IGNORECASE k text i"
    from k have k1: "start_keys self = Some ks" and k2: "ks \<noteq> []" by blast+
    from no_start_match_empty [OF k1 k2, of "text"] h
    show "snd (extract self text) = Inr []" and "extract_all self text = Inr []" by blast+
  }
  {
    fix ks
    assume k: "start_keys self = Some ks \<and> ks \<noteq> []"
      and h: "\<forall>i\<in>set [0..<Suc (length text)]. \<forall>k\<in>set ks.
                \<not> key_matches_at (word_boundary self) (flags self) k text i"
    from k have k1: "start_keys self = Some ks" and k2: "ks \<noteq> []" by blast+
    from no_start_match_empty [OF k1 k2, of "text"] h
    show "extract_all self text = Inr []" by blast
  }
qed

theorem no_start_match_gives_empty_witness:
  "word_boundary (history_extractor True) = True
   \<and> snd (extract (history_extractor True) ''clinicalhistory: pain'') = Inr []
   \<and> extract_all (history_extractor True) ''clinicalhistory: pain'' = Inr []
   \<and> key_matches_at False IGNORECASE (lit ''history'') ''clinicalhistory: pain'' 8"
proof -
  have h: "start_keys (history_extractor True) = Some [lit ''history''] \<and> [lit ''history''] \<noteq> []"
    by (simp add: history_extractor_def)
  have w: "word_boundary (history_extractor True) = True" by (simp add: history_extractor_def)
  have n: "\<forall>i\<in>set [0..<Suc (length ''clinicalhistory: pain'')]. \<forall>k\<in>set [lit ''history''].
             \<not> key_matches_at (word_boundary (history_extractor True)) IGNORECASE k
                  ''clinicalhistory: pain'' i"
    by code_simp
  have r: "key_matches_at False IGNORECASE (lit ''history'') ''clinicalhistory: pain'' 8"
    by code_simp
  note t = no_start_match_gives_empty [of "history_extractor True" "''clinicalhistory: pain''",
      THEN conjunct2, THEN spec, THEN mp, OF h, THEN conjunct1, THEN mp, OF n]
  from t w r show ?thesis by (intro conjI) blast+
qed

section \<open>The warning about a repeated start marker\<close>

text \<open>
  C8. With three occurrences of the single fragment \<open>History\<close>,
  \<open>find_start_position\<close> is to log one warning that notes 3 occurrences and to return
  the span of the first occurrence; the warning it logs says that the pattern appears 3
  times in the text and that only the first one will be matched. The code counts the
  occurrences of the fragment as it is (\<open>re.findall\<close> on the bare key), while its
  search uses the compiled pattern, which under \<open>word_boundary = True\<close> (the default)
  accepts only an occurrence that begins and ends on a word boundary. In the report
  below the first two occurrences lie inside \<open>PastHistory\<close> and
  \<open>FamilyHistory\<close>: the warning notes 3 occurrences, the compiled pattern has one,
  and the span returned is that of the third occurrence counted, not of the first;
  \<open>extract\<close> returns the section of that third occurrence next to the warning. With
  \<open>word_boundary = False\<close> the count and the search agree.
\<close>

theorem warning_counts_unanchored_occurrences:
  "re_finditer (lit ''History'', IGNORECASE) embedded_history = [(4, 11), (25, 32), (40, 47)]
   \<and> length (re_findall (lit ''History'') embedded_history IGNORECASE) = 3
   \<and> re_finditer (Seq Bnd (Seq (lit ''History'') Bnd), IGNORECASE) embedded_history = [(40, 47)]
   \<and> find_start_position embedded_history (Some [lit ''History'']) True IGNORECASE
       = ([(lit ''History'', 3)], Inr (40, 47))
   \<and> find_start_position embedded_history (Some [lit ''History'']) False IGNORECASE
       = ([(lit ''History'', 3)], Inr (4, 11))
   \<and> extract (open_extractor (Some [lit ''History'']) None) embedded_history
       = ([(lit ''History'', 3)], Inr ''History: cough'')"
  by code_simp

section \<open>Configuration errors\<close>




end
